theory Spec2Isabelle
  imports Main "HOL-Library.Sublist"
begin

section \<open>Data model\<close>

text \<open>
  Elements and tagged-tree nodes are JavaScript objects compared by identity; they are
  modelled by natural numbers (their identities). A \<open>parents\<close> array is a JavaScript
  array that contexts share by reference, so an element context holds the address of its
  array and the arrays themselves live in a store (\<open>parentsStore\<close> below).

  An element context is an object too, and the live sets are sets of such objects: two
  contexts with the same element and the same array are still two entries, while one
  object handed on twice is one entry. So a context carries its identity. Within one
  page an object is known by where it was made and what it was made from: the root
  context; a context built by the stage at some place of a selector tree, from a context
  and for an element; the context returned by a watcher's map function for a context;
  or a context given from outside.
\<close>

type_synonym HTMLElement = nat
type_synonym TagTreeNode = nat
type_synonym ParentsRef = nat

datatype ObjId =
    RootObject
  | Built "nat list" ObjId HTMLElement
  | Output nat ObjId
  | Given nat

record NodeTagPair =
  ptag :: "string option"
  pnode :: TagTreeNode

record ElementContext =
  oid :: ObjId
  el :: HTMLElement
  parents :: ParentsRef

datatype Cond = CondSelector string | CondFn "HTMLElement \<Rightarrow> bool"

datatype Selector =
    SString string
  | SFilter "HTMLElement \<Rightarrow> bool"
  | SMap "HTMLElement \<Rightarrow> HTMLElement option"
  | SWatch "string list" Cond
  | SOr "Selector list list"
  | SLog string

datatype error =
    MissingDocumentElement
  | TODO
  | InvalidSelectorItem Selector
  | UnknownSource string
  | NoParentNode
  | ReceivedElementTwice
  | RemovalOfUnseenElement
  | MissingTagOptions

section \<open>The reactive collections the pipelines are built from\<close>

text \<open>
  The page as a pipeline sees it at one moment: the direct child elements of every
  element, the element-matches-selector function, and the current values of every tag's
  aggregated output set.
\<close>

record World =
  childElements :: "HTMLElement \<Rightarrow> HTMLElement list"
  matchesSelector :: "HTMLElement \<Rightarrow> string \<Rightarrow> bool"
  taggedValues :: "string \<Rightarrow> ElementContext list"

text \<open>
  A JavaScript \<open>Set\<close> keeps its values in the order of their first insertion and holds
  each value once: it is a list built by \<open>addValue\<close>.
\<close>

definition addValue :: "'a list \<Rightarrow> 'a \<Rightarrow> 'a list" where
  "addValue s v = (if v \<in> set s then s else s @ [v])"

definition newSet :: "'a list \<Rightarrow> 'a list" where
  "newSet vs = foldl addValue [] vs"

text \<open>
  Modelled from the spec: the live-set library (constant, filter, map, flatMap, merge,
  transduce) is a dependency that is not part of the sources. A live set is modelled by
  the set of values it holds in each world. The derived sets are sets again: a value
  that reaches a merge, a flatMap or a transduce more than once is held once.
\<close>

type_synonym 'a LiveSet = "World \<Rightarrow> 'a list"

definition liveSetConstant :: "'a list \<Rightarrow> 'a LiveSet" where
  "liveSetConstant vs = (\<lambda>w. newSet vs)"

definition liveSetFilter :: "'a LiveSet \<Rightarrow> ('a \<Rightarrow> bool) \<Rightarrow> 'a LiveSet" where
  "liveSetFilter liveSet filterFn = (\<lambda>w. filter filterFn (liveSet w))"

definition liveSetFlatMap :: "'a LiveSet \<Rightarrow> ('a \<Rightarrow> 'b LiveSet) \<Rightarrow> 'b LiveSet" where
  "liveSetFlatMap liveSet flatMapFn =
     (\<lambda>w. newSet (concat (map (\<lambda>x. flatMapFn x w) (liveSet w))))"

definition liveSetMerge :: "'a LiveSet list \<Rightarrow> 'a LiveSet" where
  "liveSetMerge liveSets = (\<lambda>w. newSet (concat (map (\<lambda>liveSet. liveSet w) liveSets)))"

text \<open>
  Modelled from the spec: a transducer (transducers.js) maps one input to at most one
  output; \<open>t_compose\<close> runs the first and feeds its output to the second.
\<close>

type_synonym ('a, 'b) transducer = "'a \<Rightarrow> 'b option"

definition t_filter :: "('a \<Rightarrow> bool) \<Rightarrow> ('a, 'a) transducer" where
  "t_filter p = (\<lambda>x. if p x then Some x else None)"

definition t_map :: "('a \<Rightarrow> 'b) \<Rightarrow> ('a, 'b) transducer" where
  "t_map f = (\<lambda>x. Some (f x))"

definition t_compose :: "('a, 'b) transducer \<Rightarrow> ('b, 'c) transducer \<Rightarrow> ('a, 'c) transducer" where
  "t_compose f g = (\<lambda>x. case f x of None \<Rightarrow> None | Some y \<Rightarrow> g y)"

text \<open>
  The callbacks of a transducer may read the page (\<open>matchesSelector\<close>), so
  \<open>liveSetTransduce\<close> hands the world to its transducer.
\<close>

definition liveSetTransduce :: "'a LiveSet \<Rightarrow> (World \<Rightarrow> ('a, 'b) transducer) \<Rightarrow> 'b LiveSet" where
  "liveSetTransduce liveSet transducer =
     (\<lambda>w. newSet (List.map_filter (transducer w) (liveSet w)))"

text \<open>
  Modelled from the spec: \<open>makeElementChildLiveSet\<close>, \<open>makeFilteredEcChildLiveSet\<close> and
  \<open>makeMutationObserverLiveSet\<close> are modules of the repository whose files are not
  among the sources. The first holds the current direct child elements of an element
  (spec 4.3); the second the direct children of the context's element that match the
  selector, as contexts that inherit the context's \<open>parents\<close> (spec 4.5); the third holds
  the context itself while its element satisfies the condition (spec 4.7). The first
  argument of the second is the place of the stage that calls it, for the identity of
  the contexts it builds.
\<close>

definition makeElementChildLiveSet :: "HTMLElement \<Rightarrow> HTMLElement LiveSet" where
  "makeElementChildLiveSet e = (\<lambda>w. newSet (childElements w e))"

definition makeFilteredEcChildLiveSet ::
  "nat list \<Rightarrow> ElementContext \<Rightarrow> string \<Rightarrow> ElementContext LiveSet" where
  "makeFilteredEcChildLiveSet site ec selector =
     (\<lambda>w. map (\<lambda>c. \<lparr>oid = Built site (oid ec) c, el = c, parents = parents ec\<rparr>)
             (filter (\<lambda>c. matchesSelector w c selector) (newSet (childElements w (el ec)))))"

fun condHolds :: "World \<Rightarrow> Cond \<Rightarrow> HTMLElement \<Rightarrow> bool" where
  "condHolds w (CondSelector s) e = matchesSelector w e s"
| "condHolds w (CondFn f) e = f e"

definition makeMutationObserverLiveSet ::
  "ElementContext \<Rightarrow> string list \<Rightarrow> Cond \<Rightarrow> ElementContext LiveSet" where
  "makeMutationObserverLiveSet ec attributeFilter cond =
     (\<lambda>w. if condHolds w cond (el ec) then [ec] else [])"

section \<open>The selector compilers\<close>

type_synonym LiveSetTransformer = "ElementContext LiveSet \<Rightarrow> ElementContext LiveSet"

text \<open>
  \<open>transformers.reduce((combined, transformer) => liveSet => transformer(combined(liveSet)), x => x)\<close>
\<close>

definition reduceTransformers :: "LiveSetTransformer list \<Rightarrow> LiveSetTransformer" where
  "reduceTransformers transformers =
     foldl (\<lambda>combined transformer. (\<lambda>liveSet. transformer (combined liveSet))) (\<lambda>x. x) transformers"

text \<open>
  The \<open>$map\<close> transducer: \<open>t.compose(t.map(ec => ({el: $map(ec.el), parents: ec.parents})),
  t.filter(ec => ec.el != null))\<close>. The intermediate context has an element that may be
  absent, so it is a triple here; the object is the one that \<open>t.map\<close> built.
\<close>

definition mapTransducer ::
  "nat list \<Rightarrow> (HTMLElement \<Rightarrow> HTMLElement option) \<Rightarrow> (ElementContext, ElementContext) transducer" where
  "mapTransducer site mapFn =
     t_compose
       (t_compose (t_map (\<lambda>ec. (oid ec, mapFn (el ec), parents ec)))
                  (t_filter (\<lambda>p. fst (snd p) \<noteq> None)))
       (\<lambda>p. case fst (snd p) of
               None \<Rightarrow> None
             | Some e \<Rightarrow> Some \<lparr>oid = Built site (fst p) e, el = e, parents = snd (snd p)\<rparr>)"

text \<open>
  The compiler embedded in the orchestrator module. \<open>compileItem\<close> is the body of the
  arrow function given to \<open>selectors.map\<close>, \<open>mapItems\<close> is \<open>selectors.map\<close> (left to
  right, stopping at the first throw) and \<open>mapOr\<close> is \<open>item.$or.map(makeLiveSetTransformer)\<close>.
  The tests \<open>item.$or\<close>, \<open>item.$watch\<close>, \<open>item.$log\<close>, \<open>item.$filter\<close>, \<open>item.$map\<close> are
  truthiness tests: arrays, objects and functions are truthy, the empty string is not,
  so \<open>{$log: ''}\<close> reaches the final throw.

  Every call of the arrow function makes closures of its own, and the contexts that a
  closure builds are objects of its own. The first argument is the place of the item in
  the selector tree (the index of the item in its list, after the place of the list);
  it only serves to tell the objects of different stages apart. The second argument of
  \<open>mapItems\<close> and \<open>mapOr\<close> is the index of the next item or branch.
\<close>

fun compileItem :: "nat list \<Rightarrow> Selector \<Rightarrow> error + LiveSetTransformer"
  and mapItems :: "nat list \<Rightarrow> nat \<Rightarrow> Selector list \<Rightarrow> error + LiveSetTransformer list"
  and mapOr :: "nat list \<Rightarrow> nat \<Rightarrow> Selector list list \<Rightarrow> error + LiveSetTransformer list"
where
  "compileItem site (SString itemString) =
     Inr (\<lambda>liveSet. liveSetFlatMap liveSet
            (\<lambda>ec. liveSetTransduce (makeElementChildLiveSet (el ec))
                     (\<lambda>w. t_compose (t_filter (\<lambda>e. matchesSelector w e itemString))
                                     (t_map (\<lambda>e. \<lparr>oid = Built site (oid ec) e, el = e,
                                                   parents = parents ec\<rparr>)))))"
| "compileItem site (SOr branches) =
     (case mapOr site 0 branches of
        Inl e \<Rightarrow> Inl e
      | Inr transformers \<Rightarrow>
          Inr (\<lambda>liveSet. liveSetMerge (map (\<lambda>transformer. transformer liveSet) transformers)))"
| "compileItem site (SWatch attributeFilter cond) = Inl TODO"
| "compileItem site (SLog logPrefix) =
     (if logPrefix = [] then Inl (InvalidSelectorItem (SLog logPrefix))
      else Inr (\<lambda>liveSet. liveSetFilter liveSet (\<lambda>v. True)))"
| "compileItem site (SFilter filterFn) =
     Inr (\<lambda>liveSet. liveSetFilter liveSet (\<lambda>ec. filterFn (el ec)))"
| "compileItem site (SMap mapFn) =
     Inr (\<lambda>liveSet. liveSetTransduce liveSet (\<lambda>w. mapTransducer site mapFn))"
| "mapItems site n [] = Inr []"
| "mapItems site n (item # items) =
     (case compileItem (site @ [n]) item of
        Inl e \<Rightarrow> Inl e
      | Inr transformer \<Rightarrow>
          (case mapItems site (Suc n) items of
             Inl e \<Rightarrow> Inl e
           | Inr transformers \<Rightarrow> Inr (transformer # transformers)))"
| "mapOr site n [] = Inr []"
| "mapOr site n (branch # branches) =
     (case mapItems (site @ [n]) 0 branch of
        Inl e \<Rightarrow> Inl e
      | Inr ts \<Rightarrow>
          (case mapOr site (Suc n) branches of
             Inl e \<Rightarrow> Inl e
           | Inr transformers \<Rightarrow> Inr (reduceTransformers ts # transformers)))"

definition makeLiveSetTransformer :: "nat list \<Rightarrow> Selector list \<Rightarrow> error + LiveSetTransformer" where
  "makeLiveSetTransformer site sels =
     (case mapItems site 0 sels of
        Inl e \<Rightarrow> Inl e
      | Inr transformers \<Rightarrow> Inr (reduceTransformers transformers))"

text \<open>
  The standalone compiler (\<open>makeLiveSetTransformerFromSelectors\<close>): the same fold, with
  the plain string built from \<open>makeFilteredEcChildLiveSet\<close> and \<open>$watch\<close> implemented.
\<close>

fun compileItemFromSelectors :: "nat list \<Rightarrow> Selector \<Rightarrow> error + LiveSetTransformer"
  and mapItemsFromSelectors ::
    "nat list \<Rightarrow> nat \<Rightarrow> Selector list \<Rightarrow> error + LiveSetTransformer list"
  and mapOrFromSelectors ::
    "nat list \<Rightarrow> nat \<Rightarrow> Selector list list \<Rightarrow> error + LiveSetTransformer list"
where
  "compileItemFromSelectors site (SString itemString) =
     Inr (\<lambda>liveSet. liveSetFlatMap liveSet
            (\<lambda>ec. makeFilteredEcChildLiveSet site ec itemString))"
| "compileItemFromSelectors site (SOr branches) =
     (case mapOrFromSelectors site 0 branches of
        Inl e \<Rightarrow> Inl e
      | Inr transformers \<Rightarrow>
          Inr (\<lambda>liveSet. liveSetMerge (map (\<lambda>transformer. transformer liveSet) transformers)))"
| "compileItemFromSelectors site (SWatch attributeFilter cond) =
     Inr (\<lambda>liveSet. liveSetFlatMap liveSet
            (\<lambda>ec. makeMutationObserverLiveSet ec attributeFilter cond))"
| "compileItemFromSelectors site (SLog logPrefix) =
     (if logPrefix = [] then Inl (InvalidSelectorItem (SLog logPrefix))
      else Inr (\<lambda>liveSet. liveSetFilter liveSet (\<lambda>v. True)))"
| "compileItemFromSelectors site (SFilter filterFn) =
     Inr (\<lambda>liveSet. liveSetFilter liveSet (\<lambda>ec. filterFn (el ec)))"
| "compileItemFromSelectors site (SMap mapFn) =
     Inr (\<lambda>liveSet. liveSetTransduce liveSet (\<lambda>w. mapTransducer site mapFn))"
| "mapItemsFromSelectors site n [] = Inr []"
| "mapItemsFromSelectors site n (item # items) =
     (case compileItemFromSelectors (site @ [n]) item of
        Inl e \<Rightarrow> Inl e
      | Inr transformer \<Rightarrow>
          (case mapItemsFromSelectors site (Suc n) items of
             Inl e \<Rightarrow> Inl e
           | Inr transformers \<Rightarrow> Inr (transformer # transformers)))"
| "mapOrFromSelectors site n [] = Inr []"
| "mapOrFromSelectors site n (branch # branches) =
     (case mapItemsFromSelectors (site @ [n]) 0 branch of
        Inl e \<Rightarrow> Inl e
      | Inr ts \<Rightarrow>
          (case mapOrFromSelectors site (Suc n) branches of
             Inl e \<Rightarrow> Inl e
           | Inr transformers \<Rightarrow> Inr (reduceTransformers ts # transformers)))"

definition makeLiveSetTransformerFromSelectors ::
  "nat list \<Rightarrow> Selector list \<Rightarrow> error + LiveSetTransformer" where
  "makeLiveSetTransformerFromSelectors site sels =
     (case mapItemsFromSelectors site 0 sels of
        Inl e \<Rightarrow> Inl e
      | Inr transformers \<Rightarrow> Inr (reduceTransformers transformers))"

section \<open>The incremental child filter engine\<close>

text \<open>
  Modelled from the spec: \<open>watchFilteredChildren\<close> is a module of the repository whose
  file is not among the sources (only its test is). The model follows spec 4.4 for one
  root context: the membership set is seeded from the root's actual children on
  subscription; mutation records are queued until the next processing opportunity and
  then processed in record order; an added element that satisfies the predicate and is
  not a member becomes one, without any check that it is attached; a removed member is
  dropped only if it is no longer an actual child of the root; the changes queued while
  the whole batch is processed are delivered in one call.
\<close>

datatype DomNode = ElementNode HTMLElement | OtherNode nat

record MutationRecord =
  addedNodes :: "DomNode list"
  removedNodes :: "DomNode list"

datatype 'a LiveSetChange = Add 'a | Remove 'a

record FilteredChildren =
  rootContext :: ElementContext
  members :: "HTMLElement list"
  pendingRecords :: "MutationRecord list"
  nextCalls :: "ElementContext LiveSetChange list list"

definition childContext :: "ElementContext \<Rightarrow> HTMLElement \<Rightarrow> ElementContext" where
  "childContext root e = \<lparr>oid = Built [] (oid root) e, el = e, parents = parents root\<rparr>"

fun matchingElements :: "(HTMLElement \<Rightarrow> bool) \<Rightarrow> DomNode list \<Rightarrow> HTMLElement list" where
  "matchingElements p [] = []"
| "matchingElements p (ElementNode e # ns) =
     (if p e then e # matchingElements p ns else matchingElements p ns)"
| "matchingElements p (OtherNode k # ns) = matchingElements p ns"

definition watchFilteredChildren ::
  "ElementContext \<Rightarrow> (HTMLElement \<Rightarrow> bool) \<Rightarrow> DomNode list \<Rightarrow> FilteredChildren" where
  "watchFilteredChildren root p actualChildren =
     \<lparr>rootContext = root, members = matchingElements p actualChildren,
      pendingRecords = [], nextCalls = []\<rparr>"

definition emitMutation :: "MutationRecord \<Rightarrow> FilteredChildren \<Rightarrow> FilteredChildren" where
  "emitMutation r s = s\<lparr>pendingRecords := pendingRecords s @ [r]\<rparr>"

type_synonym EngineAcc = "HTMLElement list \<times> ElementContext LiveSetChange list"

fun processAdded :: "ElementContext \<Rightarrow> (HTMLElement \<Rightarrow> bool) \<Rightarrow> EngineAcc \<Rightarrow> DomNode \<Rightarrow> EngineAcc" where
  "processAdded root p (ms, changes) (ElementNode e) =
     (if p e \<and> e \<notin> set ms then (ms @ [e], changes @ [Add (childContext root e)])
      else (ms, changes))"
| "processAdded root p (ms, changes) (OtherNode k) = (ms, changes)"

fun processRemoved :: "ElementContext \<Rightarrow> DomNode list \<Rightarrow> EngineAcc \<Rightarrow> DomNode \<Rightarrow> EngineAcc" where
  "processRemoved root actualChildren (ms, changes) (ElementNode e) =
     (if e \<in> set ms \<and> ElementNode e \<notin> set actualChildren
      then (removeAll e ms, changes @ [Remove (childContext root e)])
      else (ms, changes))"
| "processRemoved root actualChildren (ms, changes) (OtherNode k) = (ms, changes)"

definition processRecord ::
  "ElementContext \<Rightarrow> (HTMLElement \<Rightarrow> bool) \<Rightarrow> DomNode list \<Rightarrow> EngineAcc \<Rightarrow> MutationRecord \<Rightarrow> EngineAcc" where
  "processRecord root p actualChildren acc r =
     foldl (processRemoved root actualChildren)
       (foldl (processAdded root p) acc (addedNodes r)) (removedNodes r)"

definition flush :: "(HTMLElement \<Rightarrow> bool) \<Rightarrow> DomNode list \<Rightarrow> FilteredChildren \<Rightarrow> FilteredChildren" where
  "flush p actualChildren s =
     (if pendingRecords s = [] then s
      else
        (let (ms, changes) =
               foldl (processRecord (rootContext s) p actualChildren) (members s, [])
                 (pendingRecords s)
         in s\<lparr>members := ms, pendingRecords := [],
              nextCalls := nextCalls s @ (if changes = [] then [] else [changes])\<rparr>))"

definition filteredValues :: "FilteredChildren \<Rightarrow> ElementContext list" where
  "filteredValues s = map (childContext (rootContext s)) (members s)"

fun changeValue :: "'a LiveSetChange \<Rightarrow> 'a" where
  "changeValue (Add v) = v"
| "changeValue (Remove v) = v"

section \<open>The tagged tree\<close>

text \<open>
  Modelled from the spec: the tag-tree library is a dependency that is not part of the
  sources. The model keeps what spec 6(2) lists: construction from a root value and a
  tag set, attaching a tagged value under a parent (a new node is returned), detaching a
  tagged node, parent lookup and the ownership test. Detaching a node also detaches the
  nodes below it (the cascading removal of spec 3); a detached node keeps its parent
  pointer and is no longer owned. Every request to the controller is recorded.
\<close>

record TreeNode =
  tnValue :: HTMLElement
  tnTag :: "string option"
  tnParent :: "TagTreeNode option"
  tnAncestors :: "TagTreeNode list"
  tnOwned :: bool

datatype ControllerRequest =
    AddTaggedValue TagTreeNode string HTMLElement
  | RemoveTaggedNode TagTreeNode string TagTreeNode

record TagTree =
  treeNodes :: "TreeNode list"
  treeTags :: "(string \<times> string list option) list"
  requests :: "ControllerRequest list"

definition rootNode :: TagTreeNode where
  "rootNode = 0"

definition newTagTree :: "HTMLElement \<Rightarrow> (string \<times> string list option) list \<Rightarrow> TagTree" where
  "newTagTree root tags =
     \<lparr>treeNodes = [\<lparr>tnValue = root, tnTag = None, tnParent = None,
                     tnAncestors = [], tnOwned = True\<rparr>],
      treeTags = tags, requests = []\<rparr>"

definition getValue :: "TagTree \<Rightarrow> TagTreeNode \<Rightarrow> HTMLElement" where
  "getValue t n = tnValue (treeNodes t ! n)"

definition ancestorsOf :: "TagTree \<Rightarrow> TagTreeNode \<Rightarrow> TagTreeNode list" where
  "ancestorsOf t n = (if n < length (treeNodes t) then tnAncestors (treeNodes t ! n) else [])"

definition addTaggedValue ::
  "TagTree \<Rightarrow> TagTreeNode \<Rightarrow> string \<Rightarrow> HTMLElement \<Rightarrow> TagTree \<times> TagTreeNode" where
  "addTaggedValue t parent tag e =
     (t\<lparr>treeNodes := treeNodes t @
           [\<lparr>tnValue = e, tnTag = Some tag, tnParent = Some parent,
             tnAncestors = parent # ancestorsOf t parent, tnOwned = True\<rparr>],
        requests := requests t @ [AddTaggedValue parent tag e]\<rparr>,
      length (treeNodes t))"

definition detach :: "TagTreeNode \<Rightarrow> TagTreeNode \<times> TreeNode \<Rightarrow> TreeNode" where
  "detach n = (\<lambda>(i, x). if i = n \<or> n \<in> set (tnAncestors x) then x\<lparr>tnOwned := False\<rparr> else x)"

definition removeTaggedNode :: "TagTree \<Rightarrow> TagTreeNode \<Rightarrow> string \<Rightarrow> TagTreeNode \<Rightarrow> TagTree" where
  "removeTaggedNode t parent tag n =
     t\<lparr>treeNodes := map (detach n) (enumerate 0 (treeNodes t)),
       requests := requests t @ [RemoveTaggedNode parent tag n]\<rparr>"

definition getParent :: "TagTree \<Rightarrow> TagTreeNode \<Rightarrow> TagTreeNode option" where
  "getParent t n = (if n < length (treeNodes t) then tnParent (treeNodes t ! n) else None)"

definition ownsNode :: "TagTree \<Rightarrow> TagTreeNode \<Rightarrow> TagTreeNode \<Rightarrow> bool" where
  "ownsNode t p n \<longleftrightarrow>
     n < length (treeNodes t) \<and> tnParent (treeNodes t ! n) = Some p \<and> tnOwned (treeNodes t ! n)"

section \<open>The orchestrator\<close>

record TagOptions =
  ownedBy :: "string list option"

record Watcher =
  sources :: "string option list"
  tag :: string
  selectors :: "Selector list"

record Finder =
  finderFn :: "HTMLElement \<Rightarrow> HTMLElement list"
  interval :: "nat option"

text \<open>
  \<open>tags\<close> and \<open>finders\<close> are objects used as dictionaries: association lists in the
  order of \<open>Object.keys\<close>. \<open>logError\<close> is a callback, known here by its identity.
\<close>

record PageParserTreeOptions =
  logError :: "nat option"
  tags :: "(string \<times> TagOptions) list"
  watchers :: "Watcher list"
  finders :: "(string \<times> Finder) list"

datatype Root = Document "HTMLElement option" | Element HTMLElement

datatype LogErrorFn = UserLogError nat | DeferredRethrow

text \<open>
  The variables that one iteration of \<open>watchers.forEach\<close> closes over: the destination
  tag, the \<open>ownedBy\<close> set, the source set and the compiled transformer.
\<close>

record WatcherWiring =
  wTag :: string
  wOwnedBy :: "string list"
  wSourceSet :: "ElementContext LiveSet"
  wTransformer :: LiveSetTransformer

text \<open>
  The instance, with the state its callbacks work on: the watchers wired so far, the
  store of \<open>parents\<close> arrays (an array's address is its index), each watcher's
  \<open>elementsToNodes\<close> map, the current values of each watcher's output set, and the calls
  made to the error sink.
\<close>

record PageParserTree =
  tree :: TagTree
  rootMatchedSet :: "ElementContext LiveSet"
  ecSources :: "string list"
  logErrorFn :: LogErrorFn
  options :: PageParserTreeOptions
  tagOptions :: "(string \<times> TagOptions) list"
  watcherLiveSetTransformers :: "LiveSetTransformer list"
  wirings :: "WatcherWiring list"
  parentsStore :: "NodeTagPair list list"
  elementsToNodes :: "nat \<Rightarrow> HTMLElement \<Rightarrow> TagTreeNode option"
  outputValues :: "nat \<Rightarrow> ElementContext list"
  logErrorCalls :: "(error \<times> HTMLElement option) list"

definition resolveRoot :: "Root \<Rightarrow> error + HTMLElement" where
  "resolveRoot root =
     (case root of
        Document None \<Rightarrow> Inl MissingDocumentElement
      | Document (Some rootEl) \<Rightarrow> Inr rootEl
      | Element rootEl \<Rightarrow> Inr rootEl)"

type_synonym TagTables = "(string \<times> string list option) list \<times> (string \<times> TagOptions) list"

definition declaredTags :: "PageParserTreeOptions \<Rightarrow> TagTables" where
  "declaredTags opts = (map (\<lambda>(t, tagOpts). (t, ownedBy tagOpts)) (tags opts), tags opts)"

fun addWatcherTags :: "Watcher list \<Rightarrow> TagTables \<Rightarrow> TagTables" where
  "addWatcherTags [] acc = acc"
| "addWatcherTags (watcher # ws) (tgs, topts) =
     (if tag watcher \<notin> set (map fst topts)
      then addWatcherTags ws (tgs @ [(tag watcher, None)], topts @ [(tag watcher, \<lparr>ownedBy = None\<rparr>)])
      else addWatcherTags ws (tgs, topts))"

text \<open>
  \<open>watchers.map(({selectors}) => [selectors, makeLiveSetTransformer(selectors)])\<close>. The
  first argument is the index of the watcher: the place from which the stages of its
  selector list are counted.
\<close>

fun compileWatchers :: "nat \<Rightarrow> Watcher list \<Rightarrow> error + LiveSetTransformer list" where
  "compileWatchers n [] = Inr []"
| "compileWatchers n (watcher # ws) =
     (case makeLiveSetTransformer [n] (selectors watcher) of
        Inl e \<Rightarrow> Inl e
      | Inr transformer \<Rightarrow>
          (case compileWatchers (Suc n) ws of
             Inl e \<Rightarrow> Inl e
           | Inr transformers \<Rightarrow> Inr (transformer # transformers)))"

text \<open>
  Modelled from the spec: the flattened set of a tag (\<open>liveSetFlatMap(liveSet, s => s)\<close>
  over the output sets registered for the tag) holds the current outputs of the
  watchers whose destination is the tag.
\<close>

definition ecSet :: "string \<Rightarrow> ElementContext LiveSet" where
  "ecSet t = (\<lambda>w. taggedValues w t)"

text \<open>\<open>if (!tag)\<close> holds for \<open>null\<close> and for the empty string.\<close>

definition resolveSource ::
  "ElementContext LiveSet \<Rightarrow> string list \<Rightarrow> string option \<Rightarrow> error + ElementContext LiveSet" where
  "resolveSource rootSet keys src =
     (case src of
        None \<Rightarrow> Inr rootSet
      | Some t \<Rightarrow>
          if t = [] then Inr rootSet
          else if t \<in> set keys then Inr (ecSet t)
          else Inl (UnknownSource t))"

fun sourceSetsOf ::
  "ElementContext LiveSet \<Rightarrow> string list \<Rightarrow> string option list \<Rightarrow> error + ElementContext LiveSet list" where
  "sourceSetsOf rootSet keys [] = Inr []"
| "sourceSetsOf rootSet keys (src # rest) =
     (case resolveSource rootSet keys src of
        Inl e \<Rightarrow> Inl e
      | Inr s \<Rightarrow>
          (case sourceSetsOf rootSet keys rest of
             Inl e \<Rightarrow> Inl e
           | Inr ss \<Rightarrow> Inr (s # ss)))"

text \<open>
  The head of one iteration of \<open>watchers.forEach\<close>: the tag's options, the source sets,
  their merge (unless there is exactly one) and the transformer of the watcher.
\<close>

definition wireWatcher ::
  "(string \<times> TagOptions) list \<Rightarrow> ElementContext LiveSet \<Rightarrow> string list \<Rightarrow>
   Watcher \<times> LiveSetTransformer \<Rightarrow> error + WatcherWiring" where
  "wireWatcher topts rootSet keys wt =
     (case map_of topts (tag (fst wt)) of
        None \<Rightarrow> Inl MissingTagOptions
      | Some tagOpts \<Rightarrow>
          (case sourceSetsOf rootSet keys (sources (fst wt)) of
             Inl e \<Rightarrow> Inl e
           | Inr sourceSets \<Rightarrow>
               Inr \<lparr>wTag = tag (fst wt),
                    wOwnedBy = (case ownedBy tagOpts of None \<Rightarrow> [] | Some owners \<Rightarrow> owners),
                    wSourceSet = (if length sourceSets = 1 then hd sourceSets
                                  else liveSetMerge sourceSets),
                    wTransformer = snd wt\<rparr>))"

subsection \<open>Placing and removing nodes\<close>

definition qualifies :: "string list \<Rightarrow> NodeTagPair \<Rightarrow> bool" where
  "qualifies owners p = (case ptag p of None \<Rightarrow> True | Some t \<Rightarrow> t \<in> set owners)"

text \<open>
  The loop of \<open>findParentNode\<close>: the third argument is \<open>i + 1\<close>, so the loop starts at
  the length of the array and stops at \<open>0\<close>.
\<close>

fun findParentNodeLoop :: "string list \<Rightarrow> NodeTagPair list \<Rightarrow> nat \<Rightarrow> TagTreeNode option" where
  "findParentNodeLoop owners taggedParents 0 = None"
| "findParentNodeLoop owners taggedParents (Suc i) =
     (if qualifies owners (taggedParents ! i) then Some (pnode (taggedParents ! i))
      else findParentNodeLoop owners taggedParents i)"

definition findParentNode :: "string list \<Rightarrow> NodeTagPair list \<Rightarrow> error + TagTreeNode" where
  "findParentNode owners taggedParents =
     (case findParentNodeLoop owners taggedParents (length taggedParents) of
        None \<Rightarrow> Inl NoParentNode
      | Some parentNode \<Rightarrow> Inr parentNode)"

text \<open>
  Reading a \<open>parents\<close> array through its address. The program only holds addresses of
  arrays that exist; an address outside the store reads as the empty array.
\<close>

definition parentsOf :: "PageParserTree \<Rightarrow> ElementContext \<Rightarrow> NodeTagPair list" where
  "parentsOf st ec =
     (if parents ec < length (parentsStore st) then parentsStore st ! parents ec else [])"

text \<open>
  The function given to \<open>liveSetMap\<close> by watcher \<open>i\<close>. A throw is the \<open>Inl\<close> result,
  returned with the state as the throw leaves it.
\<close>

definition outputSetMapFn ::
  "nat \<Rightarrow> PageParserTree \<Rightarrow> ElementContext \<Rightarrow> PageParserTree \<times> (error + ElementContext)" where
  "outputSetMapFn i st ec =
     (let wiring = wirings st ! i in
      case findParentNode (wOwnedBy wiring) (parentsOf st ec) of
        Inl e \<Rightarrow> (st, Inl e)
      | Inr parentNode \<Rightarrow>
          (let added = addTaggedValue (tree st) parentNode (wTag wiring) (el ec);
               node = snd added;
               st1 = st\<lparr>tree := fst added\<rparr>
           in if elementsToNodes st1 i (el ec) \<noteq> None then (st1, Inl ReceivedElementTwice)
              else
                (let st2 = st1\<lparr>elementsToNodes :=
                                (elementsToNodes st1)(i := (elementsToNodes st1 i)(el ec \<mapsto> node))\<rparr>;
                     newParents = parentsOf st2 ec @ [\<lparr>ptag = Some (wTag wiring), pnode = node\<rparr>];
                     st3 = st2\<lparr>parentsStore := parentsStore st2 @ [newParents]\<rparr>
                 in (st3, Inr \<lparr>oid = Output i (oid ec), el = el ec,
                               parents = length (parentsStore st2)\<rparr>))))"

text \<open>
  The body of \<open>changes.forEach\<close> in the callback that watcher \<open>i\<close> subscribes, and the
  callback itself (a throw ends the \<open>forEach\<close>).
\<close>

definition subscribeChange ::
  "nat \<Rightarrow> PageParserTree \<Rightarrow> ElementContext LiveSetChange \<Rightarrow> PageParserTree \<times> (error + unit)" where
  "subscribeChange i st change =
     (case change of
        Add v \<Rightarrow> (st, Inr ())
      | Remove v \<Rightarrow>
          (case elementsToNodes st i (el v) of
             None \<Rightarrow> (st, Inl RemovalOfUnseenElement)
           | Some node \<Rightarrow>
               (let st1 = st\<lparr>elementsToNodes :=
                               (elementsToNodes st)(i := (elementsToNodes st i)(el v := None))\<rparr>
                in case getParent (tree st1) node of
                     None \<Rightarrow> (st1, Inr ())
                   | Some nodeParent \<Rightarrow>
                       if ownsNode (tree st1) nodeParent node
                       then (st1\<lparr>tree := removeTaggedNode (tree st1) nodeParent
                                              (wTag (wirings st1 ! i)) node\<rparr>, Inr ())
                       else (st1, Inr ()))))"

fun subscribeCallback ::
  "nat \<Rightarrow> PageParserTree \<Rightarrow> ElementContext LiveSetChange list \<Rightarrow> PageParserTree \<times> (error + unit)" where
  "subscribeCallback i st [] = (st, Inr ())"
| "subscribeCallback i st (change # changes) =
     (case subscribeChange i st change of
        (st1, Inl e) \<Rightarrow> (st1, Inl e)
      | (st1, Inr u) \<Rightarrow> subscribeCallback i st1 changes)"

subsection \<open>Deliveries\<close>

text \<open>
  Modelled from the spec: what the live-set library does around the two callbacks. The
  world a pipeline is evaluated in is the page together with the current outputs of
  every tag. When the pipeline of watcher \<open>i\<close> yields a context, the map function runs
  and its result joins the watcher's output values; when an output value leaves, it is
  dropped from the output values and the subscriber is told.
\<close>

definition worldOf :: "PageParserTree \<Rightarrow> World \<Rightarrow> World" where
  "worldOf st page =
     page\<lparr>taggedValues :=
            (\<lambda>t. concat (map (outputValues st)
                    (filter (\<lambda>i. wTag (wirings st ! i) = t) [0..<length (wirings st)])))\<rparr>"

definition pipelineValues :: "PageParserTree \<Rightarrow> nat \<Rightarrow> World \<Rightarrow> ElementContext list" where
  "pipelineValues st i page =
     wTransformer (wirings st ! i) (wSourceSet (wirings st ! i)) (worldOf st page)"

definition deliverAdd ::
  "nat \<Rightarrow> PageParserTree \<Rightarrow> ElementContext \<Rightarrow> PageParserTree \<times> (error + ElementContext)" where
  "deliverAdd i st ec =
     (case outputSetMapFn i st ec of
        (st1, Inl e) \<Rightarrow> (st1, Inl e)
      | (st1, Inr v) \<Rightarrow>
          (st1\<lparr>outputValues := (outputValues st1)(i := outputValues st1 i @ [v])\<rparr>, Inr v))"

definition deliverRemove ::
  "nat \<Rightarrow> PageParserTree \<Rightarrow> ElementContext \<Rightarrow> PageParserTree \<times> (error + unit)" where
  "deliverRemove i st v =
     subscribeCallback i
       (st\<lparr>outputValues := (outputValues st)(i := remove1 v (outputValues st i))\<rparr>)
       [Remove v]"

fun deliverAll ::
  "nat \<Rightarrow> PageParserTree \<Rightarrow> ElementContext list \<Rightarrow> PageParserTree \<times> (error + unit)" where
  "deliverAll i st [] = (st, Inr ())"
| "deliverAll i st (ec # ecs) =
     (case deliverAdd i st ec of
        (st1, Inl e) \<Rightarrow> (st1, Inl e)
      | (st1, Inr v) \<Rightarrow> deliverAll i st1 ecs)"

subsection \<open>The constructor\<close>

text \<open>
  The rest of one iteration of \<open>watchers.forEach\<close>, and the loop. Modelled from the
  spec and the engine's test: a live set takes its values when it is subscribed to, so
  \<open>outputSet.subscribe\<close> runs the map function on what the watcher's pipeline holds at
  that moment, that is the page and the output sets of the watchers wired before it
  (its own output set joins its tag's set at the end of the iteration). A throw of the
  map function, or of the wiring of a later watcher, ends the constructor with the nodes
  attached so far in the tree.
\<close>

fun wireLoop ::
  "World \<Rightarrow> PageParserTree \<Rightarrow> (Watcher \<times> LiveSetTransformer) list \<Rightarrow>
   PageParserTree \<times> (error + unit)" where
  "wireLoop page st [] = (st, Inr ())"
| "wireLoop page st (wt # wts) =
     (case wireWatcher (tagOptions st) (rootMatchedSet st) (ecSources st) wt of
        Inl e \<Rightarrow> (st, Inl e)
      | Inr wiring \<Rightarrow>
          (let i = length (wirings st);
               st1 = st\<lparr>wirings := wirings st @ [wiring]\<rparr>
           in case deliverAll i st1 (pipelineValues st1 i page) of
                (st2, Inl e) \<Rightarrow> (st2, Inl e)
              | (st2, Inr u) \<Rightarrow> wireLoop page st2 wts))"

text \<open>
  Modelled from the spec: \<open>pullChanges\<close> on a subscription delivers what is pending for
  it (spec 5). Pending for watcher \<open>i\<close> are the contexts that its pipeline holds and its
  map function has not been given: those that reached its sources after it subscribed.
  The closing loop calls \<open>pullChanges\<close> on every subscription; a pull reaches through
  the sources of a watcher, which is rendered by one round over the subscriptions per
  watcher. What a cycle of sources leaves pending after that is delivered later, as
  every later change is.
\<close>

definition pendingOf :: "PageParserTree \<Rightarrow> nat \<Rightarrow> World \<Rightarrow> ElementContext list" where
  "pendingOf st i page =
     filter (\<lambda>ec. Output i (oid ec) \<notin> set (map oid (outputValues st i)))
       (pipelineValues st i page)"

definition pullChanges :: "World \<Rightarrow> nat \<Rightarrow> PageParserTree \<Rightarrow> PageParserTree \<times> (error + unit)" where
  "pullChanges page i st = deliverAll i st (pendingOf st i page)"

fun pullEach :: "World \<Rightarrow> PageParserTree \<Rightarrow> nat list \<Rightarrow> PageParserTree \<times> (error + unit)" where
  "pullEach page st [] = (st, Inr ())"
| "pullEach page st (i # subs) =
     (case pullChanges page i st of
        (st1, Inl e) \<Rightarrow> (st1, Inl e)
      | (st1, Inr u) \<Rightarrow> pullEach page st1 subs)"

fun pullRounds :: "nat \<Rightarrow> World \<Rightarrow> PageParserTree \<Rightarrow> PageParserTree \<times> (error + unit)" where
  "pullRounds 0 page st = (st, Inr ())"
| "pullRounds (Suc k) page st =
     (case pullEach page st [0..<length (wirings st)] of
        (st1, Inl e) \<Rightarrow> (st1, Inl e)
      | (st1, Inr u) \<Rightarrow> pullRounds k page st1)"

text \<open>
  The constructor, on a page. Every watcher's selectors are compiled before any watcher
  is wired; the map from selector lists to transformers is read back per watcher, so the
  transformers are kept in watcher order. The first component of the result is the
  instance as the constructor leaves it, at its return or at a throw of the wiring or of
  a delivery (absent when the throw precedes the wiring).
\<close>

definition PageParserTree_constructor ::
  "Root \<Rightarrow> PageParserTreeOptions \<Rightarrow> World \<Rightarrow> PageParserTree option \<times> (error + PageParserTree)" where
  "PageParserTree_constructor root opts page =
     (case resolveRoot root of
        Inl e \<Rightarrow> (None, Inl e)
      | Inr rootEl \<Rightarrow>
          (let tables = addWatcherTags (watchers opts) (declaredTags opts);
               tr = newTagTree rootEl (fst tables)
           in case compileWatchers 0 (watchers opts) of
                Inl e \<Rightarrow> (None, Inl e)
              | Inr transformers \<Rightarrow>
                  (let st0 =
                         \<lparr>tree = tr,
                          rootMatchedSet =
                            liveSetConstant
                              [\<lparr>oid = RootObject, el = getValue tr rootNode, parents = 0\<rparr>],
                          ecSources = map fst (fst tables),
                          logErrorFn = (case logError opts of
                                          None \<Rightarrow> DeferredRethrow
                                        | Some h \<Rightarrow> UserLogError h),
                          options = opts,
                          tagOptions = snd tables,
                          watcherLiveSetTransformers = transformers,
                          wirings = [],
                          parentsStore = [[\<lparr>ptag = None, pnode = rootNode\<rparr>]],
                          elementsToNodes = (\<lambda>i e. None),
                          outputValues = (\<lambda>i. []),
                          logErrorCalls = []\<rparr>
                   in case wireLoop page st0 (zip (watchers opts) transformers) of
                        (st1, Inl e) \<Rightarrow> (Some st1, Inl e)
                      | (st1, Inr u) \<Rightarrow>
                          (case pullRounds (length (watchers opts)) page st1 of
                             (st2, Inl e) \<Rightarrow> (Some st2, Inl e)
                           | (st2, Inr u2) \<Rightarrow> (Some st2, Inr st2)))))"

text \<open>
  The states of the orchestrator: the state in which the constructor returns, and the
  states that deliveries lead to from there, on any page.
\<close>

inductive reachable :: "Root \<Rightarrow> PageParserTreeOptions \<Rightarrow> PageParserTree \<Rightarrow> bool" where
  constructed:
    "snd (PageParserTree_constructor root opts page) = Inr st \<Longrightarrow> reachable root opts st"
| added:
    "reachable root opts st \<Longrightarrow> i < length (wirings st) \<Longrightarrow>
     ec \<in> set (pipelineValues st i page) \<Longrightarrow>
     reachable root opts (fst (deliverAdd i st ec))"
| removed:
    "reachable root opts st \<Longrightarrow> i < length (wirings st) \<Longrightarrow>
     v \<in> set (outputValues st i) \<Longrightarrow>
     reachable root opts (fst (deliverRemove i st v))"


section \<open>Notions used to state the properties\<close>

text \<open>
  An object derives from another when it is that object, or was built by a stage from an
  object that derives from it. A transformer hands on \<open>parents\<close> when every context it
  yields derives from a context it was given and carries the address of the \<open>parents\<close>
  array of that context.
\<close>

fun derives :: "ObjId \<Rightarrow> ObjId \<Rightarrow> bool" where
  "derives (Built site src e) x = (Built site src e = x \<or> derives src x)"
| "derives y x = (y = x)"

definition handsOnParents :: "LiveSetTransformer \<Rightarrow> bool" where
  "handsOnParents t \<longleftrightarrow>
     (\<forall>(liveSet :: ElementContext LiveSet) w.
        \<forall>ec' \<in> set (t liveSet w).
          \<exists>ec \<in> set (liveSet w). derives (oid ec') (oid ec) \<and> parents ec' = parents ec)"

text \<open>
  A transformer builds within a place when every context it yields is a context it was
  given or an object built by a stage at or below this place.
\<close>

definition builtWithin :: "nat list \<Rightarrow> LiveSetTransformer \<Rightarrow> bool" where
  "builtWithin site t \<longleftrightarrow>
     (\<forall>(liveSet :: ElementContext LiveSet) w.
        \<forall>ec' \<in> set (t liveSet w).
          ec' \<in> set (liveSet w) \<or> (\<exists>s src e. oid ec' = Built s src e \<and> prefix site s))"

text \<open>
  The reorder scenario of the engine's test: the root has the child \<open>A\<close>; after the
  subscription \<open>B\<close> is appended for real; three records are injected; the batch is
  processed with \<open>A\<close> and \<open>B\<close> as the actual children.
\<close>

definition reorderScenario ::
  "ElementContext \<Rightarrow> (HTMLElement \<Rightarrow> bool) \<Rightarrow> HTMLElement \<Rightarrow> HTMLElement \<Rightarrow> HTMLElement \<Rightarrow>
   FilteredChildren" where
  "reorderScenario root p A B C =
     (let s0 = watchFilteredChildren root p [ElementNode A];
          s1 = emitMutation \<lparr>addedNodes = [ElementNode B, ElementNode C], removedNodes = []\<rparr> s0;
          s2 = emitMutation
                 \<lparr>addedNodes = [], removedNodes = [ElementNode A, ElementNode B, ElementNode C]\<rparr> s1;
          s3 = emitMutation \<lparr>addedNodes = [ElementNode A, ElementNode B], removedNodes = []\<rparr> s2
      in flush p [ElementNode A, ElementNode B] s3)"

text \<open>Whether a selector list holds a \<open>$watch\<close> operator, at any depth of \<open>$or\<close>.\<close>

fun containsWatchItem :: "Selector \<Rightarrow> bool"
  and containsWatch :: "Selector list \<Rightarrow> bool"
  and containsWatchOr :: "Selector list list \<Rightarrow> bool"
where
  "containsWatchItem (SWatch attributeFilter cond) = True"
| "containsWatchItem (SOr branches) = containsWatchOr branches"
| "containsWatchItem (SString itemString) = False"
| "containsWatchItem (SFilter filterFn) = False"
| "containsWatchItem (SMap mapFn) = False"
| "containsWatchItem (SLog logPrefix) = False"
| "containsWatch [] = False"
| "containsWatch (item # items) = (containsWatchItem item \<or> containsWatch items)"
| "containsWatchOr [] = False"
| "containsWatchOr (branch # branches) = (containsWatch branch \<or> containsWatchOr branches)"

text \<open>
  Pages for the examples. On the first, element \<open>0\<close> has the children \<open>1\<close> and \<open>2\<close>,
  element \<open>1\<close> has the child \<open>3\<close>, and every element matches every selector. On the
  second no element has a child.
\<close>

definition examplePage :: World where
  "examplePage =
     \<lparr>childElements = (\<lambda>e. if e = 0 then [1, 2] else if e = 1 then [3] else []),
      matchesSelector = (\<lambda>e s. True),
      taggedValues = (\<lambda>t. [])\<rparr>"

definition emptyPage :: World where
  "emptyPage =
     \<lparr>childElements = (\<lambda>e. []), matchesSelector = (\<lambda>e s. True), taggedValues = (\<lambda>t. [])\<rparr>"

text \<open>
  Options for the examples: watcher \<open>0\<close> tags the children of the root with \<open>a\<close>,
  watcher \<open>1\<close> tags the children of \<open>a\<close> elements with \<open>b\<close>, which is owned by \<open>a\<close>, and
  watcher \<open>2\<close> is a second watcher with the destination tag \<open>a\<close>. The contexts are those
  that the pipelines of watchers \<open>0\<close> and \<open>2\<close> yield for element \<open>1\<close>, the output of
  watcher \<open>0\<close> for it, and what the pipeline of watcher \<open>1\<close> yields from this output for
  element \<open>3\<close>, with its output. The states are: after the construction on the page
  without children; after the page has become the first page and watcher \<open>0\<close> has placed
  element \<open>1\<close>; after watcher \<open>1\<close> has placed element \<open>3\<close> below it; after watcher \<open>0\<close>
  has been told that element \<open>1\<close> left.
\<close>

definition exampleOptions :: PageParserTreeOptions where
  "exampleOptions =
     \<lparr>logError = Some 0,
      tags = [(''b'', \<lparr>ownedBy = Some [''a'']\<rparr>)],
      watchers = [\<lparr>sources = [None], tag = ''a'', selectors = [SString ''div'']\<rparr>,
                  \<lparr>sources = [Some ''a''], tag = ''b'', selectors = [SString ''p'']\<rparr>,
                  \<lparr>sources = [None], tag = ''a'', selectors = [SString ''section'']\<rparr>],
      finders = []\<rparr>"

definition ctxA :: ElementContext where
  "ctxA = \<lparr>oid = Built [0, 0] RootObject 1, el = 1, parents = 0\<rparr>"

definition ctxA2 :: ElementContext where
  "ctxA2 = \<lparr>oid = Built [2, 0] RootObject 1, el = 1, parents = 0\<rparr>"

definition outA :: ElementContext where
  "outA = \<lparr>oid = Output 0 (Built [0, 0] RootObject 1), el = 1, parents = 1\<rparr>"

definition ctxB :: ElementContext where
  "ctxB = \<lparr>oid = Built [1, 0] (Output 0 (Built [0, 0] RootObject 1)) 3, el = 3, parents = 1\<rparr>"

definition outB :: ElementContext where
  "outB = \<lparr>oid = Output 1 (Built [1, 0] (Output 0 (Built [0, 0] RootObject 1)) 3), el = 3,
           parents = 2\<rparr>"

definition example0 :: PageParserTree where
  "example0 = projr (snd (PageParserTree_constructor (Element 0) exampleOptions emptyPage))"

definition example1 :: PageParserTree where
  "example1 = fst (deliverAdd 0 example0 ctxA)"



text \<open>
  Options whose second watcher names the source \<open>c\<close>, which is neither declared nor
  a destination, after a first watcher that matches the children of the root; and
  options whose only watcher names the empty string as its source.
\<close>

definition unknownSourceOptions :: PageParserTreeOptions where
  "unknownSourceOptions =
     \<lparr>logError = None, tags = [(''a'', \<lparr>ownedBy = None\<rparr>)],
      watchers = [\<lparr>sources = [None], tag = ''b'', selectors = [SString ''div'']\<rparr>,
                  \<lparr>sources = [Some ''b'', Some ''c''], tag = ''a'', selectors = []\<rparr>],
      finders = []\<rparr>"

definition emptySourceOptions :: PageParserTreeOptions where
  "emptySourceOptions =
     \<lparr>logError = None, tags = [],
      watchers = [\<lparr>sources = [Some ''''], tag = ''a'', selectors = []\<rparr>], finders = []\<rparr>"

text \<open>The errors that a compiler can throw.\<close>

definition compileError :: "error \<Rightarrow> bool" where
  "compileError e \<longleftrightarrow> e = TODO \<or> (\<exists>s. e = InvalidSelectorItem s)"

text \<open>
  What holds of every state of the orchestrator. The entry for the root at the head of
  every \<open>parents\<close> array; the addresses held by output values are in the store; a source
  set yields the root context (whose array is at address \<open>0\<close>) or values of a tag; every
  entry of an \<open>elementsToNodes\<close> map leads to a node of the tree with this element and
  the watcher's tag.
\<close>

definition rootPair :: NodeTagPair where
  "rootPair = \<lparr>ptag = None, pnode = rootNode\<rparr>"

definition sourceOk :: "ElementContext LiveSet \<Rightarrow> bool" where
  "sourceOk liveSet \<longleftrightarrow>
     (\<forall>w. \<forall>ec \<in> set (liveSet w). parents ec = 0 \<or> (\<exists>t. ec \<in> set (taggedValues w t)))"

definition storeOk :: "PageParserTree \<Rightarrow> bool" where
  "storeOk st \<longleftrightarrow>
     parentsStore st \<noteq> [] \<and> parentsStore st ! 0 = [rootPair] \<and>
     (\<forall>ps \<in> set (parentsStore st). ps \<noteq> [] \<and> hd ps = rootPair)"

definition outputsOk :: "PageParserTree \<Rightarrow> bool" where
  "outputsOk st \<longleftrightarrow>
     (\<forall>i. \<forall>v \<in> set (outputValues st i).
        i < length (wirings st) \<and> parents v < length (parentsStore st))"

definition wiringsOk :: "PageParserTree \<Rightarrow> bool" where
  "wiringsOk st \<longleftrightarrow>
     (\<forall>wiring \<in> set (wirings st).
        handsOnParents (wTransformer wiring) \<and> sourceOk (wSourceSet wiring))"

definition nodesOk :: "PageParserTree \<Rightarrow> bool" where
  "nodesOk st \<longleftrightarrow>
     (\<forall>i e n. elementsToNodes st i e = Some n \<longrightarrow>
        i < length (wirings st) \<and>
        n < length (treeNodes (tree st)) \<and>
        tnValue (treeNodes (tree st) ! n) = e \<and>
        tnTag (treeNodes (tree st) ! n) = Some (wTag (wirings st ! i)))"

definition consistent :: "PageParserTree \<Rightarrow> bool" where
  "consistent st \<longleftrightarrow> storeOk st \<and> outputsOk st \<and> wiringsOk st \<and> nodesOk st"

text \<open>
  The part of the instance that neither the map function nor the subscriber writes:
  the root set, the declared tags and their options, and the error sink with the calls
  made to it.
\<close>

definition unwritten ::
  "PageParserTree \<Rightarrow>
   ElementContext LiveSet \<times> string list \<times> (string \<times> TagOptions) list \<times> LogErrorFn \<times>
   (error \<times> HTMLElement option) list" where
  "unwritten st =
     (rootMatchedSet st, ecSources st, tagOptions st, logErrorFn st, logErrorCalls st)"

section \<open>Sets of values\<close>

lemma set_foldl_addValue: "set (foldl addValue acc vs) = set acc \<union> set vs"
  by (induction vs arbitrary: acc) (auto simp: addValue_def)

lemma set_newSet: "set (newSet vs) = set vs"
  by (simp add: newSet_def set_foldl_addValue)

lemma distinct_foldl_addValue: "distinct acc \<Longrightarrow> distinct (foldl addValue acc vs)"
  by (induction vs arbitrary: acc) (auto simp: addValue_def)

lemma distinct_newSet: "distinct (newSet vs)"
  by (simp add: newSet_def distinct_foldl_addValue)

lemma set_liveSetMerge: "set (liveSetMerge liveSets w) = (\<Union>liveSet \<in> set liveSets. set (liveSet w))"
  by (simp add: liveSetMerge_def set_newSet)

lemma set_liveSetFlatMap: "set (liveSetFlatMap liveSet f w) = (\<Union>x \<in> set (liveSet w). set (f x w))"
  by (simp add: liveSetFlatMap_def set_newSet)

lemma set_map_filter: "y \<in> set (List.map_filter f xs) \<longleftrightarrow> (\<exists>x \<in> set xs. f x = Some y)"
  unfolding List.map_filter_def by force

lemma set_liveSetTransduce:
  "y \<in> set (liveSetTransduce liveSet transducer w) \<longleftrightarrow>
     (\<exists>x \<in> set (liveSet w). transducer w x = Some y)"
  by (simp add: liveSetTransduce_def set_newSet set_map_filter)

section \<open>Composition of transformers\<close>

lemma reduceTransformers_foldl:
  fixes g :: LiveSetTransformer
  shows "foldl (\<lambda>combined transformer. (\<lambda>liveSet. transformer (combined liveSet))) g ts ls
   = reduceTransformers ts (g ls)"
  unfolding reduceTransformers_def
proof (induction ts arbitrary: g ls)
  case Nil show ?case by simp
next
  case (Cons t ts)
  let ?F = "\<lambda>(combined :: LiveSetTransformer) (transformer :: LiveSetTransformer).
              (\<lambda>liveSet. transformer (combined liveSet))"
  have "foldl ?F (\<lambda>liveSet. t (g liveSet)) ts ls = foldl ?F (\<lambda>x. x) ts (t (g ls))"
    using Cons.IH [where g = "\<lambda>liveSet. t (g liveSet)" and ls = ls] by simp
  moreover have "foldl ?F (\<lambda>liveSet. t liveSet) ts (g ls) = foldl ?F (\<lambda>x. x) ts (t (g ls))"
    using Cons.IH [where g = "\<lambda>liveSet. t liveSet" and ls = "g ls"] by simp
  ultimately show ?case by simp
qed

lemma reduceTransformers_Nil: "reduceTransformers [] ls = ls"
  by (simp add: reduceTransformers_def)

lemma reduceTransformers_Cons: "reduceTransformers (t # ts) ls = reduceTransformers ts (t ls)"
  using reduceTransformers_foldl [where g = t and ts = ts and ls = ls]
  by (simp add: reduceTransformers_def)

lemma reduceTransformers_append:
  "reduceTransformers (as @ bs) ls = reduceTransformers bs (reduceTransformers as ls)"
  by (induction as arbitrary: ls) (simp_all add: reduceTransformers_Nil reduceTransformers_Cons)

section \<open>The parents array is passed on by reference\<close>

lemma derives_refl: "derives x x"
  by (cases x) simp_all

lemma derives_trans: "derives a b \<Longrightarrow> derives b c \<Longrightarrow> derives a c"
proof (induction a)
  case (Built site src e)
  then show ?case by (cases "Built site src e = b") auto
qed simp_all

lemma derives_Built: "derives (Built site src e) src"
  by (simp add: derives_refl)

lemma handsOnParents_reduce:
  "list_all handsOnParents ts \<Longrightarrow> handsOnParents (reduceTransformers ts)"
proof (induction ts)
  case Nil
  show ?case unfolding handsOnParents_def reduceTransformers_Nil
    using derives_refl by blast
next
  case (Cons t ts)
  then have t: "handsOnParents t" and r: "handsOnParents (reduceTransformers ts)" by simp_all
  show ?case
    unfolding handsOnParents_def
  proof (intro allI ballI)
    fix liveSet w ec'
    assume "ec' \<in> set (reduceTransformers (t # ts) liveSet w)"
    then have "ec' \<in> set (reduceTransformers ts (t liveSet) w)"
      by (simp add: reduceTransformers_Cons)
    with r obtain ec1 where ec1: "ec1 \<in> set (t liveSet w)" "derives (oid ec') (oid ec1)"
      "parents ec' = parents ec1"
      unfolding handsOnParents_def by blast
    from t ec1(1) obtain ec where "ec \<in> set (liveSet w)" "derives (oid ec1) (oid ec)"
      "parents ec1 = parents ec"
      unfolding handsOnParents_def by blast
    with ec1 show "\<exists>ec\<in>set (liveSet w). derives (oid ec') (oid ec) \<and> parents ec' = parents ec"
      using derives_trans by force
  qed
qed

lemma handsOnParents_merge:
  "list_all handsOnParents ts \<Longrightarrow>
   handsOnParents (\<lambda>liveSet. liveSetMerge (map (\<lambda>transformer. transformer liveSet) ts))"
  unfolding handsOnParents_def list_all_iff
  by (auto simp: set_liveSetMerge)

lemma handsOnParents_filter: "handsOnParents (\<lambda>liveSet. liveSetFilter liveSet p)"
  unfolding handsOnParents_def liveSetFilter_def using derives_refl by auto

lemma mapTransducer_Some:
  "mapTransducer site f ec = Some ec' \<Longrightarrow>
   ec' = \<lparr>oid = Built site (oid ec) (el ec'), el = el ec', parents = parents ec\<rparr> \<and>
   f (el ec) = Some (el ec')"
  unfolding mapTransducer_def t_compose_def t_map_def t_filter_def
  by (auto split: option.splits if_splits)

lemma handsOnParents_map:
  "handsOnParents (\<lambda>liveSet. liveSetTransduce liveSet (\<lambda>w. mapTransducer site f))"
  unfolding handsOnParents_def
proof (intro allI ballI)
  fix liveSet :: "ElementContext LiveSet" and w ec'
  assume "ec' \<in> set (liveSetTransduce liveSet (\<lambda>w. mapTransducer site f) w)"
  then obtain ec where ec: "ec \<in> set (liveSet w)" "mapTransducer site f ec = Some ec'"
    by (auto simp: set_liveSetTransduce)
  from mapTransducer_Some [OF ec(2)] have "oid ec' = Built site (oid ec) (el ec')"
    "parents ec' = parents ec"
    by (metis ElementContext.select_convs(1), metis ElementContext.select_convs(3))
  with ec(1) show "\<exists>ec\<in>set (liveSet w). derives (oid ec') (oid ec) \<and> parents ec' = parents ec"
    using derives_Built by force
qed

lemma string_stage_values:
  "ec' \<in> set (liveSetFlatMap liveSet
            (\<lambda>ec. liveSetTransduce (makeElementChildLiveSet (el ec))
                     (\<lambda>w. t_compose (t_filter (\<lambda>e. matchesSelector w e itemString))
                                     (t_map (\<lambda>e. \<lparr>oid = Built site (oid ec) e, el = e,
                                                   parents = parents ec\<rparr>)))) w) \<longleftrightarrow>
   (\<exists>ec \<in> set (liveSet w). \<exists>e \<in> set (childElements w (el ec)).
      matchesSelector w e itemString \<and>
      ec' = \<lparr>oid = Built site (oid ec) e, el = e, parents = parents ec\<rparr>)"
  by (auto simp: set_liveSetFlatMap set_liveSetTransduce makeElementChildLiveSet_def set_newSet
        t_compose_def t_filter_def t_map_def split: if_splits)

lemma handsOnParents_string:
  "handsOnParents (\<lambda>liveSet. liveSetFlatMap liveSet
            (\<lambda>ec. liveSetTransduce (makeElementChildLiveSet (el ec))
                     (\<lambda>w. t_compose (t_filter (\<lambda>e. matchesSelector w e itemString))
                                     (t_map (\<lambda>e. \<lparr>oid = Built site (oid ec) e, el = e,
                                                   parents = parents ec\<rparr>)))))"
  unfolding handsOnParents_def
proof (intro allI ballI)
  fix liveSet :: "ElementContext LiveSet" and w ec'
  assume "ec' \<in> set (liveSetFlatMap liveSet
            (\<lambda>ec. liveSetTransduce (makeElementChildLiveSet (el ec))
                     (\<lambda>w. t_compose (t_filter (\<lambda>e. matchesSelector w e itemString))
                                     (t_map (\<lambda>e. \<lparr>oid = Built site (oid ec) e, el = e,
                                                   parents = parents ec\<rparr>)))) w)"
  then obtain ec :: ElementContext and e where "ec \<in> set (liveSet w)"
    "ec' = \<lparr>oid = Built site (oid ec) e, el = e, parents = parents ec\<rparr>"
    unfolding string_stage_values by blast
  then show "\<exists>ec\<in>set (liveSet w). derives (oid ec') (oid ec) \<and> parents ec' = parents ec"
    using derives_refl by force
qed

lemma handsOnParents_stringFromSelectors:
  "handsOnParents (\<lambda>liveSet. liveSetFlatMap liveSet
     (\<lambda>ec. makeFilteredEcChildLiveSet site ec itemString))"
  unfolding handsOnParents_def set_liveSetFlatMap makeFilteredEcChildLiveSet_def
  using derives_refl by fastforce

lemma handsOnParents_watch:
  "handsOnParents (\<lambda>liveSet. liveSetFlatMap liveSet (\<lambda>ec. makeMutationObserverLiveSet ec af c))"
  unfolding handsOnParents_def set_liveSetFlatMap makeMutationObserverLiveSet_def
  using derives_refl by (auto split: if_splits)

section \<open>Where the contexts of a stage are built\<close>

lemma builtWithin_mono: "prefix s' s \<Longrightarrow> builtWithin s t \<Longrightarrow> builtWithin s' t"
  unfolding builtWithin_def by (meson prefix_order.trans)

lemma builtWithin_reduce:
  "list_all (builtWithin site) ts \<Longrightarrow> builtWithin site (reduceTransformers ts)"
proof (induction ts)
  case Nil
  show ?case unfolding builtWithin_def reduceTransformers_Nil by blast
next
  case (Cons t ts)
  then have t: "builtWithin site t" and r: "builtWithin site (reduceTransformers ts)" by simp_all
  show ?case
    unfolding builtWithin_def
  proof (intro allI ballI)
    fix liveSet w ec'
    assume "ec' \<in> set (reduceTransformers (t # ts) liveSet w)"
    then have "ec' \<in> set (reduceTransformers ts (t liveSet) w)"
      by (simp add: reduceTransformers_Cons)
    with r have "ec' \<in> set (t liveSet w) \<or> (\<exists>s src e. oid ec' = Built s src e \<and> prefix site s)"
      unfolding builtWithin_def by blast
    with t show "ec' \<in> set (liveSet w) \<or> (\<exists>s src e. oid ec' = Built s src e \<and> prefix site s)"
      unfolding builtWithin_def by blast
  qed
qed

lemma builtWithin_merge:
  "list_all (builtWithin site) ts \<Longrightarrow>
   builtWithin site (\<lambda>liveSet. liveSetMerge (map (\<lambda>transformer. transformer liveSet) ts))"
  unfolding builtWithin_def list_all_iff
  by (auto simp: set_liveSetMerge)

lemma builtWithin_filter: "builtWithin site (\<lambda>liveSet. liveSetFilter liveSet p)"
  unfolding builtWithin_def liveSetFilter_def by auto

lemma builtWithin_map:
  "builtWithin site (\<lambda>liveSet. liveSetTransduce liveSet (\<lambda>w. mapTransducer site f))"
  unfolding builtWithin_def
proof (intro allI ballI)
  fix liveSet :: "ElementContext LiveSet" and w ec'
  assume "ec' \<in> set (liveSetTransduce liveSet (\<lambda>w. mapTransducer site f) w)"
  then obtain ec where ec: "ec \<in> set (liveSet w)" "mapTransducer site f ec = Some ec'"
    by (auto simp: set_liveSetTransduce)
  from mapTransducer_Some [OF ec(2)] have "oid ec' = Built site (oid ec) (el ec')"
    by (metis ElementContext.select_convs(1))
  then show "ec' \<in> set (liveSet w) \<or> (\<exists>s src e. oid ec' = Built s src e \<and> prefix site s)"
    by auto
qed

lemma builtWithin_string:
  "builtWithin site (\<lambda>liveSet. liveSetFlatMap liveSet
            (\<lambda>ec. liveSetTransduce (makeElementChildLiveSet (el ec))
                     (\<lambda>w. t_compose (t_filter (\<lambda>e. matchesSelector w e itemString))
                                     (t_map (\<lambda>e. \<lparr>oid = Built site (oid ec) e, el = e,
                                                   parents = parents ec\<rparr>)))))"
  unfolding builtWithin_def
proof (intro allI ballI)
  fix liveSet :: "ElementContext LiveSet" and w ec'
  assume "ec' \<in> set (liveSetFlatMap liveSet
            (\<lambda>ec. liveSetTransduce (makeElementChildLiveSet (el ec))
                     (\<lambda>w. t_compose (t_filter (\<lambda>e. matchesSelector w e itemString))
                                     (t_map (\<lambda>e. \<lparr>oid = Built site (oid ec) e, el = e,
                                                   parents = parents ec\<rparr>)))) w)"
  then obtain ec :: ElementContext and e where
    "ec' = \<lparr>oid = Built site (oid ec) e, el = e, parents = parents ec\<rparr>"
    unfolding string_stage_values by blast
  then show "ec' \<in> set (liveSet w) \<or> (\<exists>s src e. oid ec' = Built s src e \<and> prefix site s)"
    by auto
qed

lemma builtWithin_all_mono:
  "list_all (builtWithin (site @ [n])) ts \<Longrightarrow> list_all (builtWithin site) ts"
  unfolding list_all_iff using builtWithin_mono [of site "site @ [n]"] by auto

lemma builtWithin_stringFromSelectors:
  "builtWithin site (\<lambda>liveSet. liveSetFlatMap liveSet
     (\<lambda>ec. makeFilteredEcChildLiveSet site ec itemString))"
  unfolding builtWithin_def set_liveSetFlatMap makeFilteredEcChildLiveSet_def by fastforce

lemma builtWithin_watch:
  "builtWithin site (\<lambda>liveSet. liveSetFlatMap liveSet
     (\<lambda>ec. makeMutationObserverLiveSet ec af c))"
  unfolding builtWithin_def set_liveSetFlatMap makeMutationObserverLiveSet_def
  by (auto split: if_splits)

lemma compile_handsOnParents:
  "(\<forall>t. compileItem s1 item = Inr t \<longrightarrow> handsOnParents t)"
  "(\<forall>ts. mapItems s2 n2 items = Inr ts \<longrightarrow> list_all handsOnParents ts)"
  "(\<forall>ts. mapOr s3 n3 branches = Inr ts \<longrightarrow> list_all handsOnParents ts)"
proof (induction s1 item and s2 n2 items and s3 n3 branches rule: compileItem_mapItems_mapOr.induct)
  case (1 site itemString)
  show ?case using handsOnParents_string by simp
next
  case (2 site branches)
  then show ?case by (auto split: sum.splits intro: handsOnParents_merge)
next
  case (4 site logPrefix)
  show ?case by (auto intro: handsOnParents_filter)
next
  case (5 site filterFn)
  show ?case by (auto intro: handsOnParents_filter)
next
  case (6 site mapFn)
  show ?case by (auto intro: handsOnParents_map)
next
  case (10 site n branch branches)
  then show ?case by (auto split: sum.splits intro: handsOnParents_reduce)
qed (auto split: sum.splits)

lemma makeLiveSetTransformer_handsOnParents:
  "makeLiveSetTransformer site sels = Inr t \<Longrightarrow> handsOnParents t"
  using compile_handsOnParents(2) [of site 0 sels]
  by (auto simp: makeLiveSetTransformer_def split: sum.splits intro: handsOnParents_reduce)

lemma compile_builtWithin:
  "(\<forall>t. compileItem s1 item = Inr t \<longrightarrow> builtWithin s1 t)"
  "(\<forall>ts. mapItems s2 n2 items = Inr ts \<longrightarrow> list_all (builtWithin s2) ts)"
  "(\<forall>ts. mapOr s3 n3 branches = Inr ts \<longrightarrow> list_all (builtWithin s3) ts)"
proof (induction s1 item and s2 n2 items and s3 n3 branches rule: compileItem_mapItems_mapOr.induct)
  case (1 site itemString)
  show ?case using builtWithin_string [of site itemString] by simp
next
  case (2 site branches)
  show ?case
  proof (intro allI impI)
    fix t
    assume "compileItem site (SOr branches) = Inr t"
    then obtain ts where ts: "mapOr site 0 branches = Inr ts"
      and t: "t = (\<lambda>liveSet. liveSetMerge (map (\<lambda>transformer. transformer liveSet) ts))"
      by (auto split: sum.splits)
    from "2.IH" ts have "list_all (builtWithin site) ts" by blast
    then show "builtWithin site t" unfolding t by (rule builtWithin_merge)
  qed
next
  case (3 site attributeFilter cond)
  show ?case by simp
next
  case (4 site logPrefix)
  show ?case using builtWithin_filter [of site "\<lambda>v. True"] by auto
next
  case (5 site filterFn)
  show ?case using builtWithin_filter [of site "\<lambda>ec. filterFn (el ec)"] by auto
next
  case (6 site mapFn)
  show ?case using builtWithin_map [of site mapFn] by auto
next
  case (7 site n)
  show ?case by simp
next
  case (8 site n item items)
  show ?case
  proof (intro allI impI)
    fix ts
    assume "mapItems site n (item # items) = Inr ts"
    then obtain t rest where t: "compileItem (site @ [n]) item = Inr t"
      and rest: "mapItems site (Suc n) items = Inr rest" and ts: "ts = t # rest"
      by (auto split: sum.splits)
    from "8.IH"(1) t have "builtWithin (site @ [n]) t" by blast
    then have "builtWithin site t" using builtWithin_mono [of site "site @ [n]" t] by simp
    moreover from "8.IH"(2) [OF t] rest have "list_all (builtWithin site) rest" by blast
    ultimately show "list_all (builtWithin site) ts" by (simp add: ts)
  qed
next
  case (9 site n)
  show ?case by simp
next
  case (10 site n branch branches)
  show ?case
  proof (intro allI impI)
    fix ts
    assume "mapOr site n (branch # branches) = Inr ts"
    then obtain xs rest where xs: "mapItems (site @ [n]) 0 branch = Inr xs"
      and rest: "mapOr site (Suc n) branches = Inr rest" and ts: "ts = reduceTransformers xs # rest"
      by (auto split: sum.splits)
    from "10.IH"(1) xs have "list_all (builtWithin (site @ [n])) xs" by blast
    then have "list_all (builtWithin site) xs" by (rule builtWithin_all_mono)
    then have "builtWithin site (reduceTransformers xs)" by (rule builtWithin_reduce)
    moreover from "10.IH"(2) [OF xs] rest have "list_all (builtWithin site) rest" by blast
    ultimately show "list_all (builtWithin site) ts" by (simp add: ts)
  qed
qed

lemma makeLiveSetTransformer_builtWithin:
  "makeLiveSetTransformer site sels = Inr t \<Longrightarrow> builtWithin site t"
  using compile_builtWithin(2) [of site 0 sels]
  by (auto simp: makeLiveSetTransformer_def split: sum.splits intro: builtWithin_reduce)

lemma mapItems_append_eq:
  "mapItems site n (xs @ ys) =
     (case mapItems site n xs of
        Inl e \<Rightarrow> Inl e
      | Inr as \<Rightarrow>
          (case mapItems site (n + length xs) ys of
             Inl e \<Rightarrow> Inl e
           | Inr bs \<Rightarrow> Inr (as @ bs)))"
  by (induction xs arbitrary: n) (simp_all split: sum.splits)

lemma mapItems_append:
  "mapItems site n (xs @ ys) = Inr ts \<longleftrightarrow>
     (\<exists>as bs. mapItems site n xs = Inr as \<and> mapItems site (n + length xs) ys = Inr bs \<and>
              ts = as @ bs)"
  by (auto simp: mapItems_append_eq split: sum.splits)

lemma mapOr_branches:
  "mapOr site n branches = Inr ts \<Longrightarrow>
   length ts = length branches \<and>
   (\<forall>i < length branches. makeLiveSetTransformer (site @ [n + i]) (branches ! i) = Inr (ts ! i))"
proof (induction branches arbitrary: n ts)
  case Nil
  then show ?case by simp
next
  case (Cons b bs)
  from Cons.prems obtain xs rest where xs: "mapItems (site @ [n]) 0 b = Inr xs"
    and rest: "mapOr site (Suc n) bs = Inr rest" and ts: "ts = reduceTransformers xs # rest"
    by (auto split: sum.splits)
  from Cons.IH [OF rest] have len: "length rest = length bs"
    and ih: "\<forall>i < length bs. makeLiveSetTransformer (site @ [Suc n + i]) (bs ! i) = Inr (rest ! i)"
    by simp_all
  have "makeLiveSetTransformer (site @ [n + i]) ((b # bs) ! i) = Inr (ts ! i)"
    if "i < length (b # bs)" for i
  proof (cases i)
    case 0
    with xs ts show ?thesis by (simp add: makeLiveSetTransformer_def)
  next
    case (Suc j)
    with that ih ts show ?thesis by simp
  qed
  with len ts show ?case by simp
qed

lemma makeLiveSetTransformer_or:
  assumes "makeLiveSetTransformer site (pre @ SOr branches # post) = Inr t"
  shows "\<exists>tpre ts tsPost.
           makeLiveSetTransformer site pre = Inr tpre \<and>
           length ts = length branches \<and>
           (\<forall>i < length branches.
              makeLiveSetTransformer (site @ [length pre] @ [i]) (branches ! i) = Inr (ts ! i)) \<and>
           mapItems site (Suc (length pre)) post = Inr tsPost \<and>
           (\<forall>liveSet. t liveSet =
              reduceTransformers tsPost (liveSetMerge (map (\<lambda>tb. tb (tpre liveSet)) ts)))"
proof -
  from assms obtain all where all: "mapItems site 0 (pre @ SOr branches # post) = Inr all"
    and t: "t = reduceTransformers all"
    by (auto simp: makeLiveSetTransformer_def split: sum.splits)
  from all obtain as bs where as: "mapItems site 0 pre = Inr as"
    and bs: "mapItems site (length pre) (SOr branches # post) = Inr bs" and all_eq: "all = as @ bs"
    unfolding mapItems_append by auto
  from bs obtain ts cs where ts: "mapOr (site @ [length pre]) 0 branches = Inr ts"
    and cs: "mapItems site (Suc (length pre)) post = Inr cs"
    and bs_eq: "bs = (\<lambda>liveSet. liveSetMerge (map (\<lambda>transformer. transformer liveSet) ts)) # cs"
    by (auto split: sum.splits)
  have "makeLiveSetTransformer site pre = Inr (reduceTransformers as)"
    by (simp add: makeLiveSetTransformer_def as)
  moreover have "\<forall>liveSet. t liveSet =
      reduceTransformers cs (liveSetMerge (map (\<lambda>tb. tb (reduceTransformers as liveSet)) ts))"
    by (simp add: t all_eq bs_eq reduceTransformers_append reduceTransformers_Cons)
  moreover from mapOr_branches [OF ts] have "length ts = length branches"
    "\<forall>i < length branches.
       makeLiveSetTransformer (site @ [length pre] @ [i]) (branches ! i) = Inr (ts ! i)"
    by simp_all
  ultimately show ?thesis using cs by blast
qed

lemma compileFromSelectors_handsOnParents:
  "(\<forall>t. compileItemFromSelectors s1 item = Inr t \<longrightarrow> handsOnParents t)"
  "(\<forall>ts. mapItemsFromSelectors s2 n2 items = Inr ts \<longrightarrow> list_all handsOnParents ts)"
  "(\<forall>ts. mapOrFromSelectors s3 n3 branches = Inr ts \<longrightarrow> list_all handsOnParents ts)"
proof (induction s1 item and s2 n2 items and s3 n3 branches rule: compileItemFromSelectors_mapItemsFromSelectors_mapOrFromSelectors.induct)
  case (1 site itemString)
  show ?case using handsOnParents_stringFromSelectors by simp
next
  case (2 site branches)
  then show ?case by (auto split: sum.splits intro: handsOnParents_merge)
next
  case (3 site attributeFilter cond)
  show ?case by (auto intro: handsOnParents_watch)
next
  case (4 site logPrefix)
  show ?case by (auto intro: handsOnParents_filter)
next
  case (5 site filterFn)
  show ?case by (auto intro: handsOnParents_filter)
next
  case (6 site mapFn)
  show ?case by (auto intro: handsOnParents_map)
next
  case (10 site n branch branches)
  then show ?case by (auto split: sum.splits intro: handsOnParents_reduce)
qed (auto split: sum.splits)

lemma makeLiveSetTransformerFromSelectors_handsOnParents:
  "makeLiveSetTransformerFromSelectors site sels = Inr t \<Longrightarrow> handsOnParents t"
  using compileFromSelectors_handsOnParents(2) [of site 0 sels]
  by (auto simp: makeLiveSetTransformerFromSelectors_def split: sum.splits intro: handsOnParents_reduce)

lemma compileFromSelectors_builtWithin:
  "(\<forall>t. compileItemFromSelectors s1 item = Inr t \<longrightarrow> builtWithin s1 t)"
  "(\<forall>ts. mapItemsFromSelectors s2 n2 items = Inr ts \<longrightarrow> list_all (builtWithin s2) ts)"
  "(\<forall>ts. mapOrFromSelectors s3 n3 branches = Inr ts \<longrightarrow> list_all (builtWithin s3) ts)"
proof (induction s1 item and s2 n2 items and s3 n3 branches rule: compileItemFromSelectors_mapItemsFromSelectors_mapOrFromSelectors.induct)
  case (1 site itemString)
  show ?case using builtWithin_stringFromSelectors [of site itemString] by simp
next
  case (2 site branches)
  show ?case
  proof (intro allI impI)
    fix t
    assume "compileItemFromSelectors site (SOr branches) = Inr t"
    then obtain ts where ts: "mapOrFromSelectors site 0 branches = Inr ts"
      and t: "t = (\<lambda>liveSet. liveSetMerge (map (\<lambda>transformer. transformer liveSet) ts))"
      by (auto split: sum.splits)
    from "2.IH" ts have "list_all (builtWithin site) ts" by blast
    then show "builtWithin site t" unfolding t by (rule builtWithin_merge)
  qed
next
  case (3 site attributeFilter cond)
  show ?case using builtWithin_watch [of site attributeFilter cond] by auto
next
  case (4 site logPrefix)
  show ?case using builtWithin_filter [of site "\<lambda>v. True"] by auto
next
  case (5 site filterFn)
  show ?case using builtWithin_filter [of site "\<lambda>ec. filterFn (el ec)"] by auto
next
  case (6 site mapFn)
  show ?case using builtWithin_map [of site mapFn] by auto
next
  case (7 site n)
  show ?case by simp
next
  case (8 site n item items)
  show ?case
  proof (intro allI impI)
    fix ts
    assume "mapItemsFromSelectors site n (item # items) = Inr ts"
    then obtain t rest where t: "compileItemFromSelectors (site @ [n]) item = Inr t"
      and rest: "mapItemsFromSelectors site (Suc n) items = Inr rest" and ts: "ts = t # rest"
      by (auto split: sum.splits)
    from "8.IH"(1) t have "builtWithin (site @ [n]) t" by blast
    then have "builtWithin site t" using builtWithin_mono [of site "site @ [n]" t] by simp
    moreover from "8.IH"(2) [OF t] rest have "list_all (builtWithin site) rest" by blast
    ultimately show "list_all (builtWithin site) ts" by (simp add: ts)
  qed
next
  case (9 site n)
  show ?case by simp
next
  case (10 site n branch branches)
  show ?case
  proof (intro allI impI)
    fix ts
    assume "mapOrFromSelectors site n (branch # branches) = Inr ts"
    then obtain xs rest where xs: "mapItemsFromSelectors (site @ [n]) 0 branch = Inr xs"
      and rest: "mapOrFromSelectors site (Suc n) branches = Inr rest" and ts: "ts = reduceTransformers xs # rest"
      by (auto split: sum.splits)
    from "10.IH"(1) xs have "list_all (builtWithin (site @ [n])) xs" by blast
    then have "list_all (builtWithin site) xs" by (rule builtWithin_all_mono)
    then have "builtWithin site (reduceTransformers xs)" by (rule builtWithin_reduce)
    moreover from "10.IH"(2) [OF xs] rest have "list_all (builtWithin site) rest" by blast
    ultimately show "list_all (builtWithin site) ts" by (simp add: ts)
  qed
qed

lemma makeLiveSetTransformerFromSelectors_builtWithin:
  "makeLiveSetTransformerFromSelectors site sels = Inr t \<Longrightarrow> builtWithin site t"
  using compileFromSelectors_builtWithin(2) [of site 0 sels]
  by (auto simp: makeLiveSetTransformerFromSelectors_def split: sum.splits intro: builtWithin_reduce)

lemma mapItemsFromSelectors_append_eq:
  "mapItemsFromSelectors site n (xs @ ys) =
     (case mapItemsFromSelectors site n xs of
        Inl e \<Rightarrow> Inl e
      | Inr as \<Rightarrow>
          (case mapItemsFromSelectors site (n + length xs) ys of
             Inl e \<Rightarrow> Inl e
           | Inr bs \<Rightarrow> Inr (as @ bs)))"
  by (induction xs arbitrary: n) (simp_all split: sum.splits)

lemma mapItemsFromSelectors_append:
  "mapItemsFromSelectors site n (xs @ ys) = Inr ts \<longleftrightarrow>
     (\<exists>as bs. mapItemsFromSelectors site n xs = Inr as \<and> mapItemsFromSelectors site (n + length xs) ys = Inr bs \<and>
              ts = as @ bs)"
  by (auto simp: mapItemsFromSelectors_append_eq split: sum.splits)

lemma mapOrFromSelectors_branches:
  "mapOrFromSelectors site n branches = Inr ts \<Longrightarrow>
   length ts = length branches \<and>
   (\<forall>i < length branches. makeLiveSetTransformerFromSelectors (site @ [n + i]) (branches ! i) = Inr (ts ! i))"
proof (induction branches arbitrary: n ts)
  case Nil
  then show ?case by simp
next
  case (Cons b bs)
  from Cons.prems obtain xs rest where xs: "mapItemsFromSelectors (site @ [n]) 0 b = Inr xs"
    and rest: "mapOrFromSelectors site (Suc n) bs = Inr rest" and ts: "ts = reduceTransformers xs # rest"
    by (auto split: sum.splits)
  from Cons.IH [OF rest] have len: "length rest = length bs"
    and ih: "\<forall>i < length bs. makeLiveSetTransformerFromSelectors (site @ [Suc n + i]) (bs ! i) = Inr (rest ! i)"
    by simp_all
  have "makeLiveSetTransformerFromSelectors (site @ [n + i]) ((b # bs) ! i) = Inr (ts ! i)"
    if "i < length (b # bs)" for i
  proof (cases i)
    case 0
    with xs ts show ?thesis by (simp add: makeLiveSetTransformerFromSelectors_def)
  next
    case (Suc j)
    with that ih ts show ?thesis by simp
  qed
  with len ts show ?case by simp
qed

lemma makeLiveSetTransformerFromSelectors_or:
  assumes "makeLiveSetTransformerFromSelectors site (pre @ SOr branches # post) = Inr t"
  shows "\<exists>tpre ts tsPost.
           makeLiveSetTransformerFromSelectors site pre = Inr tpre \<and>
           length ts = length branches \<and>
           (\<forall>i < length branches.
              makeLiveSetTransformerFromSelectors (site @ [length pre] @ [i]) (branches ! i) = Inr (ts ! i)) \<and>
           mapItemsFromSelectors site (Suc (length pre)) post = Inr tsPost \<and>
           (\<forall>liveSet. t liveSet =
              reduceTransformers tsPost (liveSetMerge (map (\<lambda>tb. tb (tpre liveSet)) ts)))"
proof -
  from assms obtain all where all: "mapItemsFromSelectors site 0 (pre @ SOr branches # post) = Inr all"
    and t: "t = reduceTransformers all"
    by (auto simp: makeLiveSetTransformerFromSelectors_def split: sum.splits)
  from all obtain as bs where as: "mapItemsFromSelectors site 0 pre = Inr as"
    and bs: "mapItemsFromSelectors site (length pre) (SOr branches # post) = Inr bs" and all_eq: "all = as @ bs"
    unfolding mapItemsFromSelectors_append by auto
  from bs obtain ts cs where ts: "mapOrFromSelectors (site @ [length pre]) 0 branches = Inr ts"
    and cs: "mapItemsFromSelectors site (Suc (length pre)) post = Inr cs"
    and bs_eq: "bs = (\<lambda>liveSet. liveSetMerge (map (\<lambda>transformer. transformer liveSet) ts)) # cs"
    by (auto split: sum.splits)
  have "makeLiveSetTransformerFromSelectors site pre = Inr (reduceTransformers as)"
    by (simp add: makeLiveSetTransformerFromSelectors_def as)
  moreover have "\<forall>liveSet. t liveSet =
      reduceTransformers cs (liveSetMerge (map (\<lambda>tb. tb (reduceTransformers as liveSet)) ts))"
    by (simp add: t all_eq bs_eq reduceTransformers_append reduceTransformers_Cons)
  moreover from mapOrFromSelectors_branches [OF ts] have "length ts = length branches"
    "\<forall>i < length branches.
       makeLiveSetTransformerFromSelectors (site @ [length pre] @ [i]) (branches ! i) = Inr (ts ! i)"
    by simp_all
  ultimately show ?thesis using cs by blast
qed

section \<open>The reorder scenario of the filter engine\<close>

lemma processRemoved_attached:
  "ElementNode e \<in> set actualChildren \<Longrightarrow>
   processRemoved root actualChildren acc (ElementNode e) = acc"
  by (cases acc) simp

text \<open>
  Claim C2. A root has one initial child \<open>A\<close> that matches the predicate. After
  subscribing, a second real child \<open>B\<close> is appended and the records \<open>{added: [B, C]}\<close>,
  \<open>{removed: [A, B, C]}\<close>, \<open>{added: [A, B]}\<close> are injected in this order. Then exactly one
  batch is delivered, it is \<open>[add B, add C, remove C]\<close>, the matched set is \<open>{A, B}\<close> and
  no event mentions \<open>A\<close>; a removal record for a node that is still attached when it is
  processed changes nothing and queues nothing.
\<close>

theorem reorder_scenario_batch:
  assumes "p A" and "p B" and "p C" and "distinct [A, B, C]"
  shows "nextCalls (reorderScenario root p A B C) =
           [[Add (childContext root B), Add (childContext root C), Remove (childContext root C)]]
       \<and> members (reorderScenario root p A B C) = [A, B]
       \<and> filteredValues (reorderScenario root p A B C) = [childContext root A, childContext root B]
       \<and> pendingRecords (reorderScenario root p A B C) = []
       \<and> A \<notin> set (map (el \<circ> changeValue) (concat (nextCalls (reorderScenario root p A B C))))
       \<and> (\<forall>actualChildren acc e. ElementNode e \<in> set actualChildren \<longrightarrow>
             processRemoved root actualChildren acc (ElementNode e) = acc)"
  using assms
  by (simp add: reorderScenario_def watchFilteredChildren_def emitMutation_def flush_def
        processRecord_def Let_def filteredValues_def childContext_def processRemoved_attached)

theorem reorder_scenario_batch_witness:
  "nextCalls (reorderScenario \<lparr>oid = Given 0, el = 0, parents = 5\<rparr> (\<lambda>e. e \<noteq> 4) 1 2 3) =
     [[Add \<lparr>oid = Built [] (Given 0) 2, el = 2, parents = 5\<rparr>,
       Add \<lparr>oid = Built [] (Given 0) 3, el = 3, parents = 5\<rparr>,
       Remove \<lparr>oid = Built [] (Given 0) 3, el = 3, parents = 5\<rparr>]]
   \<and> members (reorderScenario \<lparr>oid = Given 0, el = 0, parents = 5\<rparr> (\<lambda>e. e \<noteq> 4) 1 2 3) = [1, 2]
   \<and> processRemoved \<lparr>oid = Given 0, el = 0, parents = 5\<rparr> [ElementNode 1, ElementNode 2]
        ([1, 2], []) (ElementNode 1) = ([1, 2], [])"
  using reorder_scenario_batch
    [of "\<lambda>e. e \<noteq> 4" 1 2 3 "\<lparr>oid = Given 0, el = 0, parents = 5\<rparr>"]
  by (simp add: childContext_def)

section \<open>Choosing the parent node\<close>

lemma findParentNodeLoop_find:
  "n \<le> length ps \<Longrightarrow>
   findParentNodeLoop owners ps n = map_option pnode (find (qualifies owners) (rev (take n ps)))"
proof (induction n)
  case 0
  show ?case by simp
next
  case (Suc n)
  then have "n < length ps" by simp
  then have "rev (take (Suc n) ps) = ps ! n # rev (take n ps)"
    by (simp add: take_Suc_conv_app_nth)
  with Suc show ?case by simp
qed

lemma findParentNode_find:
  "findParentNode owners ps =
     (case find (qualifies owners) (rev ps) of
        None \<Rightarrow> Inl NoParentNode
      | Some p \<Rightarrow> Inr (pnode p))"
  by (simp add: findParentNode_def findParentNodeLoop_find split: option.splits)

text \<open>
  Claim C4. To place a newly matched element under the destination tag of watcher \<open>i\<close>,
  the parents list of the context is scanned from its last entry to its first, and the
  parent node is the node of the first entry whose tag is absent or belongs to the
  destination tag's \<open>ownedBy\<close> set: this node is the one the attach request names. If no
  entry qualifies, the placement throws and no request is made.
\<close>

theorem findParentNode_innermost_first:
  "findParentNode owners taggedParents =
     (case find (qualifies owners) (rev taggedParents) of
        None \<Rightarrow> Inl NoParentNode
      | Some p \<Rightarrow> Inr (pnode p))
   \<and> qualifies owners q = (ptag q = None \<or> ptag q \<in> Some ` set owners)
   \<and> (snd (outputSetMapFn i st ec) = Inl NoParentNode) =
       (find (qualifies (wOwnedBy (wirings st ! i))) (rev (parentsOf st ec)) = None)
   \<and> requests (tree (fst (outputSetMapFn i st ec))) =
       (case find (qualifies (wOwnedBy (wirings st ! i))) (rev (parentsOf st ec)) of
          None \<Rightarrow> requests (tree st)
        | Some p \<Rightarrow> requests (tree st) @ [AddTaggedValue (pnode p) (wTag (wirings st ! i)) (el ec)])"
proof -
  have "qualifies owners q = (ptag q = None \<or> ptag q \<in> Some ` set owners)"
    by (auto simp: qualifies_def split: option.splits)
  moreover have "(snd (outputSetMapFn i st ec) = Inl NoParentNode) =
       (find (qualifies (wOwnedBy (wirings st ! i))) (rev (parentsOf st ec)) = None)"
    by (simp add: outputSetMapFn_def Let_def findParentNode_find split: option.splits)
  moreover have "requests (tree (fst (outputSetMapFn i st ec))) =
       (case find (qualifies (wOwnedBy (wirings st ! i))) (rev (parentsOf st ec)) of
          None \<Rightarrow> requests (tree st)
        | Some p \<Rightarrow> requests (tree st) @ [AddTaggedValue (pnode p) (wTag (wirings st ! i)) (el ec)])"
    by (simp add: outputSetMapFn_def Let_def findParentNode_find addTaggedValue_def
          split: option.splits)
  ultimately show ?thesis using findParentNode_find by blast
qed

section \<open>Pipelines keep the parents reference\<close>

lemma filteredValues_parents:
  "v \<in> set (filteredValues s) \<Longrightarrow> parents v = parents (rootContext s)"
  by (auto simp: filteredValues_def childContext_def)

lemma processAdded_parents:
  assumes "\<forall>c \<in> set (snd acc). parents (changeValue c) = parents root"
  shows "\<forall>c \<in> set (snd (processAdded root p acc n)). parents (changeValue c) = parents root"
  using assms by (cases acc; cases n) (auto simp: childContext_def)

lemma processRemoved_parents:
  assumes "\<forall>c \<in> set (snd acc). parents (changeValue c) = parents root"
  shows "\<forall>c \<in> set (snd (processRemoved root a acc n)). parents (changeValue c) = parents root"
  using assms by (cases acc; cases n) (auto simp: childContext_def)

lemma foldl_processAdded_parents:
  "\<forall>c \<in> set (snd acc). parents (changeValue c) = parents root \<Longrightarrow>
   \<forall>c \<in> set (snd (foldl (processAdded root p) acc ns)). parents (changeValue c) = parents root"
proof (induction ns arbitrary: acc)
  case Nil
  then show ?case by simp
next
  case (Cons n ns)
  show ?case
    using Cons.IH [OF processAdded_parents [OF Cons.prems]] by simp
qed

lemma foldl_processRemoved_parents:
  "\<forall>c \<in> set (snd acc). parents (changeValue c) = parents root \<Longrightarrow>
   \<forall>c \<in> set (snd (foldl (processRemoved root a) acc ns)). parents (changeValue c) = parents root"
proof (induction ns arbitrary: acc)
  case Nil
  then show ?case by simp
next
  case (Cons n ns)
  show ?case
    using Cons.IH [OF processRemoved_parents [OF Cons.prems]] by simp
qed

lemma processRecord_parents:
  "\<forall>c \<in> set (snd acc). parents (changeValue c) = parents root \<Longrightarrow>
   \<forall>c \<in> set (snd (processRecord root p a acc r)). parents (changeValue c) = parents root"
  unfolding processRecord_def
  by (rule foldl_processRemoved_parents) (rule foldl_processAdded_parents)

lemma foldl_processRecord_parents:
  "\<forall>c \<in> set (snd acc). parents (changeValue c) = parents root \<Longrightarrow>
   \<forall>c \<in> set (snd (foldl (processRecord root p a) acc rs)). parents (changeValue c) = parents root"
proof (induction rs arbitrary: acc)
  case Nil
  then show ?case by simp
next
  case (Cons r rs)
  show ?case
    using Cons.IH [OF processRecord_parents [OF Cons.prems]] by simp
qed

lemma flush_parents:
  assumes "\<forall>batch \<in> set (nextCalls s). \<forall>c \<in> set batch.
             parents (changeValue c) = parents (rootContext s)"
  shows "\<forall>batch \<in> set (nextCalls (flush p a s)). \<forall>c \<in> set batch.
           parents (changeValue c) = parents (rootContext s)"
proof (cases "pendingRecords s = []")
  case True
  with assms show ?thesis by (simp add: flush_def)
next
  case False
  obtain ms changes where acc:
    "foldl (processRecord (rootContext s) p a) (members s, []) (pendingRecords s) = (ms, changes)"
    by (cases "foldl (processRecord (rootContext s) p a) (members s, []) (pendingRecords s)")
  have "\<forall>c \<in> set changes. parents (changeValue c) = parents (rootContext s)"
    using foldl_processRecord_parents
            [of "(members s, [])" "rootContext s" p a "pendingRecords s"] acc
    by simp
  with assms False acc show ?thesis
    by (auto simp: flush_def)
qed

text \<open>
  Claim C7. A stage that adds no tagged ancestor hands on the \<open>parents\<close> reference of
  the context it works on. A context's \<open>parents\<close> field is the address of the array, so
  equal fields mean the very same array. For every operator that either compiler
  accepts, and for every compiled selector list, each context that comes out carries
  the \<open>parents\<close> address of a context that went in; the \<open>$filter\<close> and \<open>$log\<close> stages
  yield input contexts themselves. Every value of the filter engine and every change
  it delivers carries the \<open>parents\<close> address of the root context.
\<close>


lemma filteredValues_derives:
  "v \<in> set (filteredValues s) \<Longrightarrow> derives (oid v) (oid (rootContext s))"
  by (auto simp: filteredValues_def childContext_def derives_refl)

text \<open>
  Claim C7. A stage that adds no tagged ancestor hands on the \<open>parents\<close> reference of
  the context it works on. A context's \<open>parents\<close> field is the address of the array, so
  equal fields mean the very same array. For every operator that either compiler
  accepts, and for every compiled selector list, each context that comes out derives
  from a context that went in and carries the \<open>parents\<close> address of that context; the
  string stage yields, for a context that went in and a matching child of its element,
  the context made of the child and of this context's \<open>parents\<close>, and nothing else; the
  \<open>$filter\<close> and \<open>$log\<close> stages yield input contexts themselves. Every value of the
  filter engine derives from the root context and carries its \<open>parents\<close> address, and so
  does every change the engine delivers.
\<close>

theorem parents_shared_by_reference:
  "(compileItem site item = Inr ti \<longrightarrow> handsOnParents ti)
   \<and> (makeLiveSetTransformer site sels = Inr tsl \<longrightarrow> handsOnParents tsl)
   \<and> (compileItemFromSelectors site item = Inr tfi \<longrightarrow> handsOnParents tfi)
   \<and> (makeLiveSetTransformerFromSelectors site sels = Inr tfl \<longrightarrow> handsOnParents tfl)
   \<and> (compileItem site (SString itemString) = Inr ts \<longrightarrow>
        (\<forall>ec'. ec' \<in> set (ts liveSet w) \<longleftrightarrow>
           (\<exists>ec \<in> set (liveSet w). \<exists>e \<in> set (childElements w (el ec)).
              matchesSelector w e itemString \<and>
              ec' = \<lparr>oid = Built site (oid ec) e, el = e, parents = parents ec\<rparr>)))
   \<and> set (liveSetFilter liveSet filterFn w) \<subseteq> set (liveSet w)
   \<and> (\<forall>v \<in> set (filteredValues s).
         parents v = parents (rootContext s) \<and> derives (oid v) (oid (rootContext s)))
   \<and> rootContext (flush p a s) = rootContext s
   \<and> ((\<forall>batch \<in> set (nextCalls s). \<forall>c \<in> set batch.
          parents (changeValue c) = parents (rootContext s)) \<longrightarrow>
       (\<forall>batch \<in> set (nextCalls (flush p a s)). \<forall>c \<in> set batch.
          parents (changeValue c) = parents (rootContext s)))"
proof -
  have "rootContext (flush p a s) = rootContext s"
    by (simp add: flush_def Let_def split: prod.splits)
  moreover have "set (liveSetFilter liveSet filterFn w) \<subseteq> set (liveSet w)"
    by (simp add: liveSetFilter_def)
  moreover have "compileItem site (SString itemString) = Inr ts \<longrightarrow>
        (\<forall>ec'. ec' \<in> set (ts liveSet w) \<longleftrightarrow>
           (\<exists>ec \<in> set (liveSet w). \<exists>e \<in> set (childElements w (el ec)).
              matchesSelector w e itemString \<and>
              ec' = \<lparr>oid = Built site (oid ec) e, el = e, parents = parents ec\<rparr>))"
    using string_stage_values [where liveSet = liveSet and site = site and itemString = itemString and w = w]
    by auto
  moreover have "\<forall>v \<in> set (filteredValues s).
         parents v = parents (rootContext s) \<and> derives (oid v) (oid (rootContext s))"
    using filteredValues_parents [of _ s] filteredValues_derives [of _ s] by blast
  ultimately show ?thesis
    using compile_handsOnParents(1) [of site item]
      compileFromSelectors_handsOnParents(1) [of site item]
      makeLiveSetTransformer_handsOnParents [of site sels tsl]
      makeLiveSetTransformerFromSelectors_handsOnParents [of site sels tfl]
      flush_parents [of s p a]
    by blast
qed

theorem parents_shared_by_reference_witness:
  "compileItem [0] (SString ''div'') =
     Inr (\<lambda>liveSet. liveSetFlatMap liveSet
            (\<lambda>ec. liveSetTransduce (makeElementChildLiveSet (el ec))
                     (\<lambda>w. t_compose (t_filter (\<lambda>e. matchesSelector w e ''div''))
                                     (t_map (\<lambda>e. \<lparr>oid = Built [0] (oid ec) e, el = e,
                                                   parents = parents ec\<rparr>)))))
   \<and> (case makeLiveSetTransformer [0] [SString ''div'', SMap (\<lambda>e. Some (e + 10))] of
         Inl e \<Rightarrow> []
       | Inr t \<Rightarrow> t (liveSetConstant [\<lparr>oid = Given 1, el = 0, parents = 7\<rparr>,
                                       \<lparr>oid = Given 2, el = 1, parents = 8\<rparr>]) examplePage) =
       [\<lparr>oid = Built [0, 1] (Built [0, 0] (Given 1) 1) 11, el = 11, parents = 7\<rparr>,
        \<lparr>oid = Built [0, 1] (Built [0, 0] (Given 1) 2) 12, el = 12, parents = 7\<rparr>,
        \<lparr>oid = Built [0, 1] (Built [0, 0] (Given 2) 3) 13, el = 13, parents = 8\<rparr>]
   \<and> (case makeLiveSetTransformerFromSelectors [0] [SString ''div'', SMap (\<lambda>e. Some (e + 10))] of
         Inl e \<Rightarrow> []
       | Inr t \<Rightarrow> t (liveSetConstant [\<lparr>oid = Given 1, el = 0, parents = 7\<rparr>,
                                       \<lparr>oid = Given 2, el = 1, parents = 8\<rparr>]) examplePage) =
       [\<lparr>oid = Built [0, 1] (Built [0, 0] (Given 1) 1) 11, el = 11, parents = 7\<rparr>,
        \<lparr>oid = Built [0, 1] (Built [0, 0] (Given 1) 2) 12, el = 12, parents = 7\<rparr>,
        \<lparr>oid = Built [0, 1] (Built [0, 0] (Given 2) 3) 13, el = 13, parents = 8\<rparr>]
   \<and> map (map (parents \<circ> changeValue))
        (nextCalls (flush (\<lambda>e. True) [ElementNode 1, ElementNode 2, ElementNode 4]
           (emitMutation \<lparr>addedNodes = [ElementNode 4], removedNodes = []\<rparr>
              (reorderScenario \<lparr>oid = Given 0, el = 0, parents = 5\<rparr> (\<lambda>e. True) 1 2 3)))) =
        [[5, 5, 5], [5]]"
  using parents_shared_by_reference
    [of "[0]" "SString ''div''"
        "\<lambda>liveSet. liveSetFlatMap liveSet
            (\<lambda>ec. liveSetTransduce (makeElementChildLiveSet (el ec))
                     (\<lambda>w. t_compose (t_filter (\<lambda>e. matchesSelector w e ''div''))
                                     (t_map (\<lambda>e. \<lparr>oid = Built [0] (oid ec) e, el = e,
                                                   parents = parents ec\<rparr>))))"
        "[SString ''div'', SMap (\<lambda>e. Some (e + 10))]"
        "projr (makeLiveSetTransformer [0] [SString ''div'', SMap (\<lambda>e. Some (e + 10))])"
        "\<lambda>liveSet. liveSetFlatMap liveSet (\<lambda>ec. makeFilteredEcChildLiveSet [0] ec ''div'')"
        "projr (makeLiveSetTransformerFromSelectors [0] [SString ''div'', SMap (\<lambda>e. Some (e + 10))])"
        "''div''"
        "\<lambda>liveSet. liveSetFlatMap liveSet
            (\<lambda>ec. liveSetTransduce (makeElementChildLiveSet (el ec))
                     (\<lambda>w. t_compose (t_filter (\<lambda>e. matchesSelector w e ''div''))
                                     (t_map (\<lambda>e. \<lparr>oid = Built [0] (oid ec) e, el = e,
                                                   parents = parents ec\<rparr>))))"
        "liveSetConstant [\<lparr>oid = Given 1, el = 0, parents = 7\<rparr>,
                          \<lparr>oid = Given 2, el = 1, parents = 8\<rparr>]"
        examplePage "\<lambda>ec. True"
        "emitMutation \<lparr>addedNodes = [ElementNode 4], removedNodes = []\<rparr>
              (reorderScenario \<lparr>oid = Given 0, el = 0, parents = 5\<rparr> (\<lambda>e. True) 1 2 3)"
        "\<lambda>e. True" "[ElementNode 1, ElementNode 2, ElementNode 4]"]
  by (simp add: makeLiveSetTransformer_def makeLiveSetTransformerFromSelectors_def
        reduceTransformers_def liveSetFilter_def liveSetConstant_def liveSetFlatMap_def
        liveSetTransduce_def makeElementChildLiveSet_def makeFilteredEcChildLiveSet_def
        mapTransducer_def List.map_filter_def t_compose_def t_filter_def t_map_def
        newSet_def addValue_def examplePage_def
        reorderScenario_def watchFilteredChildren_def emitMutation_def flush_def
        processRecord_def Let_def childContext_def)

section \<open>The \<open>$or\<close> operator\<close>

lemma branches_share_only_input:
  assumes "builtWithin (site @ [i]) ti" and "builtWithin (site @ [j]) tj" and "i \<noteq> j"
    and "ec \<in> set (ti liveSet w)" and "ec \<in> set (tj liveSet w)"
  shows "ec \<in> set (liveSet w)"
proof (rule ccontr)
  assume no: "ec \<notin> set (liveSet w)"
  with assms(1,4) obtain s src e where s: "oid ec = Built s src e" "prefix (site @ [i]) s"
    unfolding builtWithin_def by blast
  from no assms(2,5) obtain s' src' e' where s': "oid ec = Built s' src' e'" "prefix (site @ [j]) s'"
    unfolding builtWithin_def by blast
  from s s' have "prefix (site @ [i]) s" "prefix (site @ [j]) s" by simp_all
  then obtain r1 r2 where "s = (site @ [i]) @ r1" "s = (site @ [j]) @ r2"
    unfolding prefix_def by blast
  then have "i = j" by simp
  with assms(3) show False by simp
qed

text \<open>
  Claim C8, as amended. Wherever a selector list holds an \<open>$or\<close> operator, the output of
  the compiled pipeline at that stage is the merge of the outputs of the branches, each
  branch compiled on its own and applied to the same upstream live set (the output of
  the operators before the \<open>$or\<close>); the operators after it work on the merge. The merge
  is the union of the branches' sets of context objects and holds each object once. A
  context that two branches both yield is a context of the upstream set that both
  handed on; the contexts that branches build (string, \<open>$map\<close>) are objects of their own
  and stay separate entries, also for the same element. This holds for the compiler
  embedded in the orchestrator and for the standalone compiler.
\<close>

theorem or_is_merge_of_branches:
  "(makeLiveSetTransformer site (pre @ SOr branches # post) = Inr t \<longrightarrow>
      (\<exists>tpre ts tsPost.
         makeLiveSetTransformer site pre = Inr tpre \<and>
         length ts = length branches \<and>
         (\<forall>i < length branches.
            makeLiveSetTransformer (site @ [length pre] @ [i]) (branches ! i) = Inr (ts ! i)) \<and>
         mapItems site (Suc (length pre)) post = Inr tsPost \<and>
         (\<forall>liveSet. t liveSet =
            reduceTransformers tsPost (liveSetMerge (map (\<lambda>tb. tb (tpre liveSet)) ts)))))
   \<and> (makeLiveSetTransformerFromSelectors site (pre @ SOr branches # post) = Inr t \<longrightarrow>
      (\<exists>tpre ts tsPost.
         makeLiveSetTransformerFromSelectors site pre = Inr tpre \<and>
         length ts = length branches \<and>
         (\<forall>i < length branches.
            makeLiveSetTransformerFromSelectors (site @ [length pre] @ [i]) (branches ! i) =
              Inr (ts ! i)) \<and>
         mapItemsFromSelectors site (Suc (length pre)) post = Inr tsPost \<and>
         (\<forall>liveSet. t liveSet =
            reduceTransformers tsPost (liveSetMerge (map (\<lambda>tb. tb (tpre liveSet)) ts)))))
   \<and> set (liveSetMerge liveSets w) = (\<Union>liveSet \<in> set liveSets. set (liveSet w))
   \<and> distinct (liveSetMerge liveSets w)
   \<and> (makeLiveSetTransformer (stage @ [i]) bi = Inr ti \<and>
       makeLiveSetTransformer (stage @ [j]) bj = Inr tj \<and> i \<noteq> j \<and>
       ec \<in> set (ti upstream w) \<and> ec \<in> set (tj upstream w) \<longrightarrow> ec \<in> set (upstream w))
   \<and> (makeLiveSetTransformerFromSelectors (stage @ [i]) bi = Inr tfi \<and>
       makeLiveSetTransformerFromSelectors (stage @ [j]) bj = Inr tfj \<and> i \<noteq> j \<and>
       ec \<in> set (tfi upstream w) \<and> ec \<in> set (tfj upstream w) \<longrightarrow> ec \<in> set (upstream w))"
proof -
  have "distinct (liveSetMerge liveSets w)"
    by (simp add: liveSetMerge_def distinct_newSet)
  moreover have "makeLiveSetTransformer (stage @ [i]) bi = Inr ti \<and>
       makeLiveSetTransformer (stage @ [j]) bj = Inr tj \<and> i \<noteq> j \<and>
       ec \<in> set (ti upstream w) \<and> ec \<in> set (tj upstream w) \<longrightarrow> ec \<in> set (upstream w)"
    using branches_share_only_input [of stage i ti j tj ec upstream w]
      makeLiveSetTransformer_builtWithin [of "stage @ [i]" bi ti]
      makeLiveSetTransformer_builtWithin [of "stage @ [j]" bj tj]
    by blast
  moreover have "makeLiveSetTransformerFromSelectors (stage @ [i]) bi = Inr tfi \<and>
       makeLiveSetTransformerFromSelectors (stage @ [j]) bj = Inr tfj \<and> i \<noteq> j \<and>
       ec \<in> set (tfi upstream w) \<and> ec \<in> set (tfj upstream w) \<longrightarrow> ec \<in> set (upstream w)"
    using branches_share_only_input [of stage i tfi j tfj ec upstream w]
      makeLiveSetTransformerFromSelectors_builtWithin [of "stage @ [i]" bi tfi]
      makeLiveSetTransformerFromSelectors_builtWithin [of "stage @ [j]" bj tfj]
    by blast
  ultimately show ?thesis
    using makeLiveSetTransformer_or [of site pre branches post t]
      makeLiveSetTransformerFromSelectors_or [of site pre branches post t]
      set_liveSetMerge [of liveSets w]
    by blast
qed

theorem or_is_merge_of_branches_witness:
  "(case makeLiveSetTransformer [0] ([] @ SOr [[SString ''div''], [SString ''div''], []] # []) of
      Inl e \<Rightarrow> []
    | Inr t \<Rightarrow> t (liveSetConstant [\<lparr>oid = Given 1, el = 0, parents = 7\<rparr>]) examplePage) =
      [\<lparr>oid = Built [0, 0, 0, 0] (Given 1) 1, el = 1, parents = 7\<rparr>,
       \<lparr>oid = Built [0, 0, 0, 0] (Given 1) 2, el = 2, parents = 7\<rparr>,
       \<lparr>oid = Built [0, 0, 1, 0] (Given 1) 1, el = 1, parents = 7\<rparr>,
       \<lparr>oid = Built [0, 0, 1, 0] (Given 1) 2, el = 2, parents = 7\<rparr>,
       \<lparr>oid = Given 1, el = 0, parents = 7\<rparr>]
   \<and> (case makeLiveSetTransformerFromSelectors [0]
             ([] @ SOr [[SString ''div''], [SString ''div''], []] # []) of
      Inl e \<Rightarrow> []
    | Inr t \<Rightarrow> t (liveSetConstant [\<lparr>oid = Given 1, el = 0, parents = 7\<rparr>]) examplePage) =
      [\<lparr>oid = Built [0, 0, 0, 0] (Given 1) 1, el = 1, parents = 7\<rparr>,
       \<lparr>oid = Built [0, 0, 0, 0] (Given 1) 2, el = 2, parents = 7\<rparr>,
       \<lparr>oid = Built [0, 0, 1, 0] (Given 1) 1, el = 1, parents = 7\<rparr>,
       \<lparr>oid = Built [0, 0, 1, 0] (Given 1) 2, el = 2, parents = 7\<rparr>,
       \<lparr>oid = Given 1, el = 0, parents = 7\<rparr>]"
  using or_is_merge_of_branches
    [of "[0]" "[]" "[[SString ''div''], [SString ''div''], []]" "[]"
        "projr (makeLiveSetTransformer [0] [SOr [[SString ''div''], [SString ''div''], []]])"
        "[]" examplePage "[0, 0]" 0 "[SString ''div'']"
        "projr (makeLiveSetTransformer [0, 0, 0] [SString ''div''])" 1 "[SString ''div'']"
        "projr (makeLiveSetTransformer [0, 0, 1] [SString ''div''])"
        "\<lparr>oid = Given 1, el = 0, parents = 7\<rparr>"
        "liveSetConstant [\<lparr>oid = Given 1, el = 0, parents = 7\<rparr>]"]
  by (simp add: makeLiveSetTransformer_def makeLiveSetTransformerFromSelectors_def
        reduceTransformers_def liveSetConstant_def liveSetMerge_def liveSetFlatMap_def
        liveSetTransduce_def makeElementChildLiveSet_def makeFilteredEcChildLiveSet_def
        List.map_filter_def t_compose_def t_filter_def t_map_def
        newSet_def addValue_def examplePage_def)

theorem or_merge_holds_shared_context_once_counterexample:
  "liveSetFilter (liveSetConstant [\<lparr>oid = Given 0, el = 0, parents = 0\<rparr>,
                                  \<lparr>oid = Given 1, el = 1, parents = 0\<rparr>]) (\<lambda>ec. True) examplePage =
     [\<lparr>oid = Given 0, el = 0, parents = 0\<rparr>, \<lparr>oid = Given 1, el = 1, parents = 0\<rparr>]
   \<and> liveSetFilter (liveSetConstant [\<lparr>oid = Given 0, el = 0, parents = 0\<rparr>,
                                    \<lparr>oid = Given 1, el = 1, parents = 0\<rparr>])
        (\<lambda>ec. 0 < el ec) examplePage = [\<lparr>oid = Given 1, el = 1, parents = 0\<rparr>]
   \<and> (case makeLiveSetTransformer [0] [SOr [[SFilter (\<lambda>e. True)], [SFilter (\<lambda>e. 0 < e)]]] of
        Inl e \<Rightarrow> []
      | Inr t \<Rightarrow> t (liveSetConstant [\<lparr>oid = Given 0, el = 0, parents = 0\<rparr>,
                                      \<lparr>oid = Given 1, el = 1, parents = 0\<rparr>]) examplePage) =
     [\<lparr>oid = Given 0, el = 0, parents = 0\<rparr>, \<lparr>oid = Given 1, el = 1, parents = 0\<rparr>]
   \<and> (case makeLiveSetTransformerFromSelectors [0]
             [SOr [[SFilter (\<lambda>e. True)], [SFilter (\<lambda>e. 0 < e)]]] of
        Inl e \<Rightarrow> []
      | Inr t \<Rightarrow> t (liveSetConstant [\<lparr>oid = Given 0, el = 0, parents = 0\<rparr>,
                                      \<lparr>oid = Given 1, el = 1, parents = 0\<rparr>]) examplePage) =
     [\<lparr>oid = Given 0, el = 0, parents = 0\<rparr>, \<lparr>oid = Given 1, el = 1, parents = 0\<rparr>]"
  by (simp add: makeLiveSetTransformer_def makeLiveSetTransformerFromSelectors_def
        reduceTransformers_def liveSetConstant_def liveSetMerge_def liveSetFilter_def
        newSet_def addValue_def)

section \<open>Construction fails on \<open>$watch\<close>\<close>

lemma compile_errors:
  "(\<forall>e. compileItem s1 item = Inl e \<longrightarrow> compileError e)"
  "(\<forall>e. mapItems s2 n2 items = Inl e \<longrightarrow> compileError e)"
  "(\<forall>e. mapOr s3 n3 branches = Inl e \<longrightarrow> compileError e)"
  by (induction s1 item and s2 n2 items and s3 n3 branches rule: compileItem_mapItems_mapOr.induct)
     (auto simp: compileError_def split: sum.splits if_splits)

lemma containsWatch_fails:
  "(containsWatchItem item \<longrightarrow> isl (compileItem s1 item))"
  "(containsWatch items \<longrightarrow> isl (mapItems s2 n2 items))"
  "(containsWatchOr branches \<longrightarrow> isl (mapOr s3 n3 branches))"
  by (induction s1 item and s2 n2 items and s3 n3 branches rule: compileItem_mapItems_mapOr.induct)
     (auto split: sum.splits)

lemma makeLiveSetTransformer_watch:
  "containsWatch sels \<Longrightarrow> \<exists>e. makeLiveSetTransformer site sels = Inl e \<and> compileError e"
  using containsWatch_fails(2) [of sels site 0] compile_errors(2) [of site 0 sels]
  by (cases "mapItems site 0 sels") (auto simp: makeLiveSetTransformer_def)

lemma makeLiveSetTransformer_error:
  "makeLiveSetTransformer site sels = Inl e \<Longrightarrow> compileError e"
  using compile_errors(2) [of site 0 sels]
  by (cases "mapItems site 0 sels") (auto simp: makeLiveSetTransformer_def)

lemma compileWatchers_error:
  "compileWatchers n ws = Inl e \<Longrightarrow> compileError e"
  by (induction ws arbitrary: n) (auto split: sum.splits dest: makeLiveSetTransformer_error)

lemma compileWatchers_watch:
  "w \<in> set ws \<Longrightarrow> containsWatch (selectors w) \<Longrightarrow> isl (compileWatchers n ws)"
proof (induction ws arbitrary: n)
  case Nil
  then show ?case by simp
next
  case (Cons x ws)
  show ?case
  proof (cases "makeLiveSetTransformer [n] (selectors x)")
    case (Inl e)
    then show ?thesis by simp
  next
    case (Inr t)
    with Cons.prems makeLiveSetTransformer_watch [of "selectors x" "[n]"] have "w \<in> set ws"
      by auto
    from Cons.IH [OF this Cons.prems(2), of "Suc n"] Inr show ?thesis
      by (auto split: sum.splits)
  qed
qed

lemma constructor_compile_error:
  assumes "isl (compileWatchers 0 (watchers opts))"
  shows "\<exists>e. snd (PageParserTree_constructor root opts page) = Inl e \<and>
             (e = MissingDocumentElement \<or> compileError e)"
proof (cases "resolveRoot root")
  case (Inl e)
  then have "e = MissingDocumentElement"
    by (auto simp: resolveRoot_def split: Root.splits option.splits)
  with Inl show ?thesis by (simp add: PageParserTree_constructor_def)
next
  case (Inr rootEl)
  from assms obtain e where e: "compileWatchers 0 (watchers opts) = Inl e"
    by (cases "compileWatchers 0 (watchers opts)") auto
  with Inr compileWatchers_error [OF e] show ?thesis
    by (simp add: PageParserTree_constructor_def Let_def)
qed

text \<open>
  Claim C1. If the selector list of some watcher holds a \<open>$watch\<close> operator, directly or
  inside any nesting of \<open>$or\<close> branches, the construction of the PageParserTree throws:
  every watcher's selectors go through the compiler embedded in the orchestrator, which
  throws \<open>TODO\<close> whenever it meets \<open>$watch\<close>, while the standalone compiler builds a
  stage for it. (The throw of the construction is this \<open>TODO\<close>, unless the document has
  no root element or the compiler meets an invalid item first.)
\<close>

theorem construction_throws_on_watch:
  assumes "w \<in> set (watchers opts)" and "containsWatch (selectors w)"
  shows "(\<exists>e. snd (PageParserTree_constructor root opts page) = Inl e \<and>
              (e = MissingDocumentElement \<or> e = TODO \<or> (\<exists>s. e = InvalidSelectorItem s)))
       \<and> isl (makeLiveSetTransformer site (selectors w))
       \<and> compileItem site (SWatch attributeFilter cond) = Inl TODO
       \<and> compileItemFromSelectors site (SWatch attributeFilter cond) =
           Inr (\<lambda>liveSet. liveSetFlatMap liveSet
                  (\<lambda>ec. makeMutationObserverLiveSet ec attributeFilter cond))"
  using constructor_compile_error [OF compileWatchers_watch [OF assms], of root page]
    makeLiveSetTransformer_watch [OF assms(2), of site]
  by (auto simp: compileError_def)

theorem construction_throws_on_watch_witness:
  "\<lparr>sources = [None], tag = ''a'',
     selectors = [SString ''div'', SOr [[SString ''p''], [SWatch [''class''] (CondSelector ''.x'')]]]\<rparr>
     \<in> set (watchers \<lparr>logError = None, tags = [],
               watchers = [\<lparr>sources = [None], tag = ''a'',
                  selectors = [SString ''div'',
                     SOr [[SString ''p''], [SWatch [''class''] (CondSelector ''.x'')]]]\<rparr>],
               finders = []\<rparr>)
   \<and> containsWatch [SString ''div'', SOr [[SString ''p''], [SWatch [''class''] (CondSelector ''.x'')]]]
   \<and> snd (PageParserTree_constructor (Element 0)
        \<lparr>logError = None, tags = [],
         watchers = [\<lparr>sources = [None], tag = ''a'',
            selectors = [SString ''div'',
               SOr [[SString ''p''], [SWatch [''class''] (CondSelector ''.x'')]]]\<rparr>],
         finders = []\<rparr> examplePage) = Inl TODO"
  using construction_throws_on_watch
    [of "\<lparr>sources = [None], tag = ''a'',
           selectors = [SString ''div'',
              SOr [[SString ''p''], [SWatch [''class''] (CondSelector ''.x'')]]]\<rparr>"
        "\<lparr>logError = None, tags = [],
          watchers = [\<lparr>sources = [None], tag = ''a'',
             selectors = [SString ''div'',
                SOr [[SString ''p''], [SWatch [''class''] (CondSelector ''.x'')]]]\<rparr>],
          finders = []\<rparr>" "Element 0" examplePage "[0]"]
  by (simp add: PageParserTree_constructor_def resolveRoot_def Let_def
        makeLiveSetTransformer_def)

section \<open>The states of the orchestrator\<close>

lemma findParentNode_error: "findParentNode owners ps = Inl e \<Longrightarrow> e = NoParentNode"
  by (auto simp: findParentNode_def split: option.splits)

lemma findParentNode_Nil: "findParentNode owners [] = Inl NoParentNode"
  by (simp add: findParentNode_def)

lemma findParentNode_root:
  assumes "ps \<noteq> []" and "hd ps = rootPair"
  shows "\<exists>parentNode. findParentNode owners ps = Inr parentNode"
proof -
  have "hd ps \<in> set (rev ps)" using assms(1) by simp
  moreover have "qualifies owners (hd ps)"
    by (simp add: assms(2) qualifies_def rootPair_def)
  ultimately have "find (qualifies owners) (rev ps) \<noteq> None"
    by (auto simp: find_None_iff)
  then show ?thesis
    by (auto simp: findParentNode_find split: option.splits)
qed

lemma parentsOf_nonempty:
  "parentsOf st ec \<noteq> [] \<Longrightarrow>
   parents ec < length (parentsStore st) \<and> parentsOf st ec = parentsStore st ! parents ec"
  by (auto simp: parentsOf_def split: if_splits)

lemma outputSetMapFn_cases:
  obtains
    (noParent) "findParentNode (wOwnedBy (wirings st ! i)) (parentsOf st ec) = Inl NoParentNode"
      and "outputSetMapFn i st ec = (st, Inl NoParentNode)"
  | (twice) parentNode n0 where
      "findParentNode (wOwnedBy (wirings st ! i)) (parentsOf st ec) = Inr parentNode"
      and "elementsToNodes st i (el ec) = Some n0"
      and "outputSetMapFn i st ec =
             (st\<lparr>tree := fst (addTaggedValue (tree st) parentNode (wTag (wirings st ! i)) (el ec))\<rparr>,
              Inl ReceivedElementTwice)"
  | (placed) parentNode where
      "findParentNode (wOwnedBy (wirings st ! i)) (parentsOf st ec) = Inr parentNode"
      and "elementsToNodes st i (el ec) = None"
      and "outputSetMapFn i st ec =
             (st\<lparr>tree := fst (addTaggedValue (tree st) parentNode (wTag (wirings st ! i)) (el ec)),
                 elementsToNodes := (elementsToNodes st)
                   (i := (elementsToNodes st i)(el ec \<mapsto> length (treeNodes (tree st)))),
                 parentsStore := parentsStore st @
                   [parentsOf st ec @
                      [\<lparr>ptag = Some (wTag (wirings st ! i)),
                        pnode = length (treeNodes (tree st))\<rparr>]]\<rparr>,
              Inr \<lparr>oid = Output i (oid ec), el = el ec, parents = length (parentsStore st)\<rparr>)"
proof (cases "findParentNode (wOwnedBy (wirings st ! i)) (parentsOf st ec)")
  case (Inl e)
  then have "e = NoParentNode" by (rule findParentNode_error)
  with Inl show ?thesis by (intro noParent) (simp_all add: outputSetMapFn_def Let_def)
next
  case (Inr parentNode)
  show ?thesis
  proof (cases "elementsToNodes st i (el ec)")
    case None
    with Inr show ?thesis
      by (intro placed [of parentNode])
         (simp_all add: outputSetMapFn_def Let_def addTaggedValue_def parentsOf_def)
  next
    case (Some n0)
    with Inr show ?thesis
      by (intro twice [of parentNode n0]) (simp_all add: outputSetMapFn_def Let_def)
  qed
qed

lemma addTaggedValue_nodes:
  "treeNodes (fst (addTaggedValue t parentNode tg e)) =
     treeNodes t @ [\<lparr>tnValue = e, tnTag = Some tg, tnParent = Some parentNode,
                     tnAncestors = parentNode # ancestorsOf t parentNode, tnOwned = True\<rparr>]"
  by (simp add: addTaggedValue_def)

lemma nodesOkD:
  "nodesOk st \<Longrightarrow> elementsToNodes st i e = Some n \<Longrightarrow>
   i < length (wirings st) \<and>
   n < length (treeNodes (tree st)) \<and> tnValue (treeNodes (tree st) ! n) = e \<and>
   tnTag (treeNodes (tree st) ! n) = Some (wTag (wirings st ! i))"
  unfolding nodesOk_def by blast

lemma nodesOk_addTaggedValue:
  assumes "nodesOk st"
  shows "nodesOk (st\<lparr>tree := fst (addTaggedValue (tree st) parentNode tg e)\<rparr>)"
  unfolding nodesOk_def
proof (intro allI impI)
  fix i e' n
  let ?st' = "st\<lparr>tree := fst (addTaggedValue (tree st) parentNode tg e)\<rparr>"
  assume "elementsToNodes ?st' i e' = Some n"
  then have "elementsToNodes st i e' = Some n" by simp
  from nodesOkD [OF assms this]
  show "i < length (wirings ?st') \<and> n < length (treeNodes (tree ?st')) \<and>
       tnValue (treeNodes (tree ?st') ! n) = e' \<and>
       tnTag (treeNodes (tree ?st') ! n) = Some (wTag (wirings ?st' ! i))"
    by (simp add: addTaggedValue_nodes nth_append)
qed

lemma outputSetMapFn_kept:
  "wirings (fst (outputSetMapFn i st ec)) = wirings st"
  "unwritten (fst (outputSetMapFn i st ec)) = unwritten st"
  "outputValues (fst (outputSetMapFn i st ec)) = outputValues st"
  "length (parentsStore st) \<le> length (parentsStore (fst (outputSetMapFn i st ec)))"
  by (cases rule: outputSetMapFn_cases [of st i ec]; simp add: unwritten_def)+

lemma outputSetMapFn_consistent:
  assumes "consistent st" and "i < length (wirings st)"
  shows "consistent (fst (outputSetMapFn i st ec))"
proof (cases rule: outputSetMapFn_cases [of st i ec])
  case noParent
  with assms show ?thesis by simp
next
  case (twice parentNode n0)
  from assms have "storeOk st" "outputsOk st" "wiringsOk st" "nodesOk st"
    by (simp_all add: consistent_def)
  then have "storeOk (fst (outputSetMapFn i st ec))" "outputsOk (fst (outputSetMapFn i st ec))"
    "wiringsOk (fst (outputSetMapFn i st ec))"
    unfolding twice(3) storeOk_def outputsOk_def wiringsOk_def by simp_all
  moreover have "nodesOk (fst (outputSetMapFn i st ec))"
    using nodesOk_addTaggedValue [OF \<open>nodesOk st\<close>] unfolding twice(3) by simp
  ultimately show ?thesis by (simp add: consistent_def)
next
  case (placed parentNode)
  from assms have ok: "storeOk st" "outputsOk st" "wiringsOk st" "nodesOk st"
    by (simp_all add: consistent_def)
  let ?st' = "fst (outputSetMapFn i st ec)"
  from placed(1) have ne: "parentsOf st ec \<noteq> []"
    using findParentNode_Nil by auto
  with parentsOf_nonempty [OF ne] ok(1) have hd: "hd (parentsOf st ec) = rootPair"
    by (auto simp: storeOk_def)
  have "storeOk ?st'"
    using ok(1) ne hd unfolding placed(3) storeOk_def by (auto simp: nth_append)
  moreover have "outputsOk ?st'"
    using ok(2) unfolding placed(3) outputsOk_def by (auto simp: less_Suc_eq)
  moreover have "wiringsOk ?st'"
    using ok(3) unfolding placed(3) wiringsOk_def by simp
  moreover have "nodesOk ?st'"
    unfolding nodesOk_def
  proof (intro allI impI)
    fix i' e' n
    assume a: "elementsToNodes ?st' i' e' = Some n"
    have t: "treeNodes (tree ?st') =
               treeNodes (tree st) @
                 [\<lparr>tnValue = el ec, tnTag = Some (wTag (wirings st ! i)),
                   tnParent = Some parentNode,
                   tnAncestors = parentNode # ancestorsOf (tree st) parentNode, tnOwned = True\<rparr>]"
      and w: "wirings ?st' = wirings st"
      and m: "elementsToNodes ?st' =
                (elementsToNodes st)(i := (elementsToNodes st i)(el ec \<mapsto> length (treeNodes (tree st))))"
      unfolding placed(3) by (simp_all add: addTaggedValue_nodes)
    show "i' < length (wirings ?st') \<and> n < length (treeNodes (tree ?st')) \<and>
          tnValue (treeNodes (tree ?st') ! n) = e' \<and>
          tnTag (treeNodes (tree ?st') ! n) = Some (wTag (wirings ?st' ! i'))"
    proof (cases "i' = i \<and> e' = el ec")
      case True
      with a m have "n = length (treeNodes (tree st))" by simp
      with True assms(2) show ?thesis unfolding t w by simp
    next
      case False
      with a m have "elementsToNodes st i' e' = Some n" by (auto split: if_splits)
      from nodesOkD [OF ok(4) this] show ?thesis
        unfolding t w by (simp add: nth_append)
    qed
  qed
  ultimately show ?thesis by (simp add: consistent_def)
qed

lemma deliverAdd_kept:
  "wirings (fst (deliverAdd i st ec)) = wirings st"
  "unwritten (fst (deliverAdd i st ec)) = unwritten st"
  "length (parentsStore st) \<le> length (parentsStore (fst (deliverAdd i st ec)))"
  using outputSetMapFn_kept(1,2,4) [where i = i and st = st and ec = ec]
  by (auto simp: deliverAdd_def unwritten_def split: prod.splits sum.splits)

lemma deliverAdd_consistent:
  assumes "consistent st" and "i < length (wirings st)"
  shows "consistent (fst (deliverAdd i st ec))"
proof (cases "outputSetMapFn i st ec")
  case (Pair st1 r)
  with outputSetMapFn_consistent [OF assms, of ec] have c1: "consistent st1" by simp
  from Pair outputSetMapFn_kept(1) [where i = i and st = st and ec = ec] have w1: "wirings st1 = wirings st" by simp
  show ?thesis
  proof (cases r)
    case (Inl e)
    with Pair c1 show ?thesis by (simp add: deliverAdd_def)
  next
    case (Inr v)
    with Pair have "outputSetMapFn i st ec = (st1, Inr v)" by simp
    then have v: "parents v < length (parentsStore st1)"
      by (cases rule: outputSetMapFn_cases [of st i ec]) auto
    from c1 v w1 assms(2)
    have "consistent (st1\<lparr>outputValues := (outputValues st1)(i := outputValues st1 i @ [v])\<rparr>)"
      by (auto simp: consistent_def storeOk_def outputsOk_def wiringsOk_def nodesOk_def)
    with Pair Inr show ?thesis by (simp add: deliverAdd_def)
  qed
qed

lemma deliverAdd_error:
  assumes "consistent st" and "parents ec < length (parentsStore st)"
    and "snd (deliverAdd i st ec) = Inl e"
  shows "e = ReceivedElementTwice"
proof -
  from assms(1,2) have "parentsOf st ec \<noteq> []" "hd (parentsOf st ec) = rootPair"
    by (auto simp: consistent_def storeOk_def parentsOf_def)
  from findParentNode_root [OF this] obtain parentNode where
    f: "findParentNode (wOwnedBy (wirings st ! i)) (parentsOf st ec) = Inr parentNode" by blast
  show ?thesis
  proof (cases rule: outputSetMapFn_cases [of st i ec])
    case noParent
    with f show ?thesis by simp
  next
    case (twice p n)
    with assms(3) show ?thesis by (simp add: deliverAdd_def)
  next
    case (placed p)
    with assms(3) show ?thesis by (simp add: deliverAdd_def)
  qed
qed

lemma deliverAll_kept:
  "wirings (fst (deliverAll i st ecs)) = wirings st \<and>
   unwritten (fst (deliverAll i st ecs)) = unwritten st \<and>
   length (parentsStore st) \<le> length (parentsStore (fst (deliverAll i st ecs)))"
proof (induction ecs arbitrary: st)
  case Nil
  show ?case by simp
next
  case (Cons ec ecs)
  obtain st1 r where d: "deliverAdd i st ec = (st1, r)" by (cases "deliverAdd i st ec")
  with deliverAdd_kept [where i = i and st = st and ec = ec] have k: "wirings st1 = wirings st"
    "unwritten st1 = unwritten st" "length (parentsStore st) \<le> length (parentsStore st1)"
    by simp_all
  show ?case
  proof (cases r)
    case (Inl e)
    with d k show ?thesis by simp
  next
    case (Inr v)
    with d k Cons.IH [of st1] show ?thesis by simp
  qed
qed

lemma deliverAll_consistent:
  "consistent st \<Longrightarrow> i < length (wirings st) \<Longrightarrow> consistent (fst (deliverAll i st ecs))"
proof (induction ecs arbitrary: st)
  case Nil
  then show ?case by simp
next
  case (Cons ec ecs)
  obtain st1 r where d: "deliverAdd i st ec = (st1, r)" by (cases "deliverAdd i st ec")
  with deliverAdd_consistent [OF Cons.prems, of ec] have c1: "consistent st1" by simp
  from d deliverAdd_kept(1) [where i = i and st = st and ec = ec] Cons.prems(2) have w1: "i < length (wirings st1)"
    by simp
  show ?case
  proof (cases r)
    case (Inl e)
    with d c1 show ?thesis by simp
  next
    case (Inr v)
    with d Cons.IH [OF c1 w1] show ?thesis by simp
  qed
qed

lemma deliverAll_error:
  "consistent st \<Longrightarrow> i < length (wirings st) \<Longrightarrow>
   \<forall>ec \<in> set ecs. parents ec < length (parentsStore st) \<Longrightarrow>
   snd (deliverAll i st ecs) = Inl e \<Longrightarrow> e = ReceivedElementTwice"
proof (induction ecs arbitrary: st)
  case Nil
  then show ?case by simp
next
  case (Cons ec ecs)
  obtain st1 r where d: "deliverAdd i st ec = (st1, r)" by (cases "deliverAdd i st ec")
  with deliverAdd_consistent [OF Cons.prems(1,2), of ec] have c1: "consistent st1" by simp
  from d deliverAdd_kept [where i = i and st = st and ec = ec] Cons.prems(2) have w1: "i < length (wirings st1)"
    and l1: "length (parentsStore st) \<le> length (parentsStore st1)"
    by simp_all
  show ?case
  proof (cases r)
    case (Inl e')
    with d Cons.prems(4) have "snd (deliverAdd i st ec) = Inl e" by simp
    from deliverAdd_error [OF Cons.prems(1) _ this] Cons.prems(3) show ?thesis by simp
  next
    case (Inr v)
    from Cons.prems(3) l1 have "\<forall>ec \<in> set ecs. parents ec < length (parentsStore st1)"
      by auto
    from Cons.IH [OF c1 w1 this] d Inr Cons.prems(4) show ?thesis by simp
  qed
qed

lemma removeTaggedNode_nodes:
  "length (treeNodes (removeTaggedNode t p tg n)) = length (treeNodes t)"
  "k < length (treeNodes t) \<Longrightarrow>
     tnValue (treeNodes (removeTaggedNode t p tg n) ! k) = tnValue (treeNodes t ! k) \<and>
     tnTag (treeNodes (removeTaggedNode t p tg n) ! k) = tnTag (treeNodes t ! k) \<and>
     tnParent (treeNodes (removeTaggedNode t p tg n) ! k) = tnParent (treeNodes t ! k) \<and>
     tnAncestors (treeNodes (removeTaggedNode t p tg n) ! k) = tnAncestors (treeNodes t ! k)"
  by (simp_all add: removeTaggedNode_def detach_def nth_enumerate_eq)

lemma subscribeChange_consistent:
  assumes "consistent st"
  shows "consistent (fst (subscribeChange i st change))"
proof (cases change)
  case (Add v)
  with assms show ?thesis by (simp add: subscribeChange_def)
next
  case (Remove v)
  from assms have ok: "storeOk st" "outputsOk st" "wiringsOk st" "nodesOk st"
    by (simp_all add: consistent_def)
  let ?st1 = "st\<lparr>elementsToNodes := (elementsToNodes st)(i := (elementsToNodes st i)(el v := None))\<rparr>"
  have c1: "consistent ?st1"
    using ok unfolding consistent_def storeOk_def outputsOk_def wiringsOk_def nodesOk_def
    by (auto split: if_splits)
  have c2: "consistent (?st1\<lparr>tree := removeTaggedNode (tree ?st1) p tg n\<rparr>)" for p tg n
    using c1 unfolding consistent_def storeOk_def outputsOk_def wiringsOk_def nodesOk_def
    by (simp add: removeTaggedNode_nodes)
  show ?thesis
    using assms c1 c2 Remove
    by (auto simp: subscribeChange_def Let_def split: option.splits)
qed

lemma subscribeCallback_single:
  "subscribeCallback i st [change] = subscribeChange i st change"
  by (cases "subscribeChange i st change") (auto split: sum.splits)

lemma deliverRemove_consistent:
  assumes "consistent st"
  shows "consistent (fst (deliverRemove i st v))"
proof -
  let ?st0 = "st\<lparr>outputValues := (outputValues st)(i := remove1 v (outputValues st i))\<rparr>"
  have "consistent ?st0"
    using assms unfolding consistent_def storeOk_def outputsOk_def wiringsOk_def nodesOk_def
    by (auto dest: notin_set_remove1 set_remove1_subset [THEN subsetD])
  from subscribeChange_consistent [OF this, of i "Remove v"] show ?thesis
    unfolding deliverRemove_def subscribeCallback_single .
qed

lemma deliverRemove_kept:
  "wirings (fst (deliverRemove i st v)) = wirings st"
  "unwritten (fst (deliverRemove i st v)) = unwritten st"
  unfolding deliverRemove_def subscribeCallback_single
  by (auto simp: subscribeChange_def Let_def unwritten_def split: option.splits)

lemma compileWatchers_handsOnParents:
  "compileWatchers n ws = Inr ts \<Longrightarrow> \<forall>t \<in> set ts. handsOnParents t"
  by (induction ws arbitrary: n ts)
     (auto split: sum.splits dest: makeLiveSetTransformer_handsOnParents)

lemma sourceOk_merge: "\<forall>s \<in> set ss. sourceOk s \<Longrightarrow> sourceOk (liveSetMerge ss)"
  unfolding sourceOk_def by (auto simp: set_liveSetMerge)

lemma sourceOk_ecSet: "sourceOk (ecSet t)"
  unfolding sourceOk_def ecSet_def by blast

lemma sourceSetsOf_ok:
  "sourceSetsOf rootSet keys srcs = Inr ss \<Longrightarrow> sourceOk rootSet \<Longrightarrow> \<forall>s \<in> set ss. sourceOk s"
  by (induction srcs arbitrary: ss)
     (auto simp: resolveSource_def sourceOk_ecSet split: sum.splits option.splits if_splits)

lemma wireWatcher_ok:
  assumes "wireWatcher topts rootSet keys wt = Inr wiring" and "sourceOk rootSet"
    and "handsOnParents (snd wt)"
  shows "handsOnParents (wTransformer wiring) \<and> sourceOk (wSourceSet wiring)"
proof -
  from assms(1) obtain ss where ss: "sourceSetsOf rootSet keys (sources (fst wt)) = Inr ss"
    and wiring: "wSourceSet wiring = (if length ss = 1 then hd ss else liveSetMerge ss)"
      "wTransformer wiring = snd wt"
    by (auto simp: wireWatcher_def split: option.splits sum.splits)
  have all: "\<forall>s \<in> set ss. sourceOk s" by (rule sourceSetsOf_ok [OF ss assms(2)])
  have "sourceOk (if length ss = 1 then hd ss else liveSetMerge ss)"
  proof (cases "length ss = 1")
    case True
    then have "hd ss \<in> set ss" by (cases ss) auto
    with all True show ?thesis by simp
  next
    case False
    with sourceOk_merge [OF all] show ?thesis by simp
  qed
  with assms(3) show ?thesis by (simp add: wiring)
qed


lemma pipelineValues_refs:
  assumes "consistent st" and "i < length (wirings st)" and "ec \<in> set (pipelineValues st i page)"
  shows "parents ec < length (parentsStore st)"
proof -
  let ?wiring = "wirings st ! i"
  from assms(1,2) have p: "handsOnParents (wTransformer ?wiring)" and s: "sourceOk (wSourceSet ?wiring)"
    and store: "parentsStore st \<noteq> []" and out: "outputsOk st"
    by (auto simp: consistent_def wiringsOk_def storeOk_def)
  from p assms(3) obtain ec0 :: ElementContext where
    ec0: "ec0 \<in> set (wSourceSet ?wiring (worldOf st page))"
    and eq: "parents ec = parents ec0"
    unfolding handsOnParents_def pipelineValues_def by blast
  from s ec0 have "parents ec0 = 0 \<or> (\<exists>t. ec0 \<in> set (taggedValues (worldOf st page) t))"
    unfolding sourceOk_def by auto
  then show ?thesis
  proof (elim disjE exE)
    assume "parents ec0 = 0"
    with eq store show ?thesis by simp
  next
    fix t
    assume "ec0 \<in> set (taggedValues (worldOf st page) t)"
    then obtain j where "ec0 \<in> set (outputValues st j)"
      by (auto simp: worldOf_def)
    with out eq show ?thesis by (auto simp: outputsOk_def)
  qed
qed

lemma wire_consistent:
  assumes "consistent st" and "handsOnParents (wTransformer wiring)"
    and "sourceOk (wSourceSet wiring)"
  shows "consistent (st\<lparr>wirings := wirings st @ [wiring]\<rparr>)"
proof -
  from assms(1) have ok: "storeOk st" "outputsOk st" "wiringsOk st" "nodesOk st"
    by (simp_all add: consistent_def)
  let ?st' = "st\<lparr>wirings := wirings st @ [wiring]\<rparr>"
  have "storeOk ?st'" using ok(1) by (simp add: storeOk_def)
  moreover have "outputsOk ?st'" using ok(2) by (auto simp: outputsOk_def less_Suc_eq)
  moreover have "wiringsOk ?st'" using ok(3) assms(2,3) by (auto simp: wiringsOk_def)
  moreover have "nodesOk ?st'"
    unfolding nodesOk_def
  proof (intro allI impI)
    fix i e n
    assume "elementsToNodes ?st' i e = Some n"
    then have "elementsToNodes st i e = Some n" by simp
    from nodesOkD [OF ok(4) this]
    show "i < length (wirings ?st') \<and> n < length (treeNodes (tree ?st')) \<and>
          tnValue (treeNodes (tree ?st') ! n) = e \<and>
          tnTag (treeNodes (tree ?st') ! n) = Some (wTag (wirings ?st' ! i))"
      by (simp add: nth_append)
  qed
  ultimately show ?thesis by (simp add: consistent_def)
qed

lemma wireLoop_consistent:
  "consistent st \<Longrightarrow> sourceOk (rootMatchedSet st) \<Longrightarrow>
   \<forall>wt \<in> set wts. handsOnParents (snd wt) \<Longrightarrow>
   consistent (fst (wireLoop page st wts)) \<and>
   unwritten (fst (wireLoop page st wts)) = unwritten st"
proof (induction wts arbitrary: st)
  case Nil
  then show ?case by simp
next
  case (Cons wt wts)
  show ?case
  proof (cases "wireWatcher (tagOptions st) (rootMatchedSet st) (ecSources st) wt")
    case (Inl e)
    with Cons.prems(1) show ?thesis by simp
  next
    case w: (Inr wiring)
    let ?i = "length (wirings st)"
    let ?st1 = "st\<lparr>wirings := wirings st @ [wiring]\<rparr>"
    from wireWatcher_ok [OF w Cons.prems(2)] Cons.prems(3)
    have ok: "handsOnParents (wTransformer wiring)" "sourceOk (wSourceSet wiring)" by simp_all
    have c1: "consistent ?st1" by (rule wire_consistent [OF Cons.prems(1) ok])
    have i1: "?i < length (wirings ?st1)" by simp
    obtain st2 r where d: "deliverAll ?i ?st1 (pipelineValues ?st1 ?i page) = (st2, r)"
      by (cases "deliverAll ?i ?st1 (pipelineValues ?st1 ?i page)")
    from deliverAll_consistent [OF c1 i1, of "pipelineValues ?st1 ?i page"] d
    have c2: "consistent st2" by simp
    from deliverAll_kept [where i = ?i and st = ?st1 and ecs = "pipelineValues ?st1 ?i page"] d
    have u2: "unwritten st2 = unwritten st" by (simp add: unwritten_def)
    show ?thesis
    proof (cases r)
      case (Inl e)
      with w d c2 u2 show ?thesis by (simp add: Let_def)
    next
      case (Inr u)
      from u2 Cons.prems(2) have "sourceOk (rootMatchedSet st2)" by (simp add: unwritten_def)
      from Cons.IH [OF c2 this] Cons.prems(3) u2
      have "consistent (fst (wireLoop page st2 wts)) \<and>
            unwritten (fst (wireLoop page st2 wts)) = unwritten st" by simp
      with w d Inr show ?thesis by (simp add: Let_def)
    qed
  qed
qed

lemma pullEach_consistent:
  "consistent st \<Longrightarrow> \<forall>i \<in> set subs. i < length (wirings st) \<Longrightarrow>
   consistent (fst (pullEach page st subs)) \<and>
   wirings (fst (pullEach page st subs)) = wirings st \<and>
   unwritten (fst (pullEach page st subs)) = unwritten st"
proof (induction subs arbitrary: st)
  case Nil
  then show ?case by simp
next
  case (Cons i subs)
  obtain st1 r where d: "pullChanges page i st = (st1, r)" by (cases "pullChanges page i st")
  from Cons.prems have i: "i < length (wirings st)" by simp
  from deliverAll_consistent [OF Cons.prems(1) i, of "pendingOf st i page"] d
  have c1: "consistent st1" by (simp add: pullChanges_def)
  from deliverAll_kept [where i = i and st = st and ecs = "pendingOf st i page"] d
  have k1: "wirings st1 = wirings st" "unwritten st1 = unwritten st"
    by (simp_all add: pullChanges_def)
  show ?case
  proof (cases r)
    case (Inl e)
    with d c1 k1 show ?thesis by simp
  next
    case (Inr u)
    from Cons.prems(2) k1(1) have "\<forall>i \<in> set subs. i < length (wirings st1)" by simp
    from Cons.IH [OF c1 this] d Inr k1 show ?thesis by simp
  qed
qed

lemma pullRounds_consistent:
  "consistent st \<Longrightarrow>
   consistent (fst (pullRounds k page st)) \<and>
   wirings (fst (pullRounds k page st)) = wirings st \<and>
   unwritten (fst (pullRounds k page st)) = unwritten st"
proof (induction k arbitrary: st)
  case 0
  then show ?case by simp
next
  case (Suc k)
  obtain st1 r where d: "pullEach page st [0..<length (wirings st)] = (st1, r)"
    by (cases "pullEach page st [0..<length (wirings st)]")
  from pullEach_consistent [OF Suc.prems, of "[0..<length (wirings st)]" page] d
  have c1: "consistent st1" and k1: "wirings st1 = wirings st" "unwritten st1 = unwritten st"
    by simp_all
  show ?case
  proof (cases r)
    case (Inl e)
    with d c1 k1 show ?thesis by simp
  next
    case (Inr u)
    with Suc.IH [OF c1] d k1 show ?thesis by simp
  qed
qed

lemma constructor_cases:
  obtains
    (noRoot) "root = Document None"
      and "PageParserTree_constructor root opts page = (None, Inl MissingDocumentElement)"
  | (noCompile) e where "compileWatchers 0 (watchers opts) = Inl e"
      and "PageParserTree_constructor root opts page = (None, Inl e)"
  | (wired) rootEl transformers st0 st1 where
      "resolveRoot root = Inr rootEl"
      and "compileWatchers 0 (watchers opts) = Inr transformers"
      and "wirings st0 = []" and "parentsStore st0 = [[rootPair]]"
      and "outputValues st0 = (\<lambda>i. [])" and "elementsToNodes st0 = (\<lambda>i e. None)"
      and "tree st0 = newTagTree rootEl (fst (addWatcherTags (watchers opts) (declaredTags opts)))"
      and "unwritten st0 =
             (liveSetConstant [\<lparr>oid = RootObject, el = rootEl, parents = 0\<rparr>],
              map fst (fst (addWatcherTags (watchers opts) (declaredTags opts))),
              snd (addWatcherTags (watchers opts) (declaredTags opts)),
              (case logError opts of None \<Rightarrow> DeferredRethrow | Some h \<Rightarrow> UserLogError h), [])"
      and "st1 = fst (wireLoop page st0 (zip (watchers opts) transformers))"
      and "PageParserTree_constructor root opts page =
             (case snd (wireLoop page st0 (zip (watchers opts) transformers)) of
                Inl e \<Rightarrow> (Some st1, Inl e)
              | Inr u \<Rightarrow>
                  (case snd (pullRounds (length (watchers opts)) page st1) of
                     Inl e \<Rightarrow> (Some (fst (pullRounds (length (watchers opts)) page st1)), Inl e)
                   | Inr u2 \<Rightarrow>
                       (Some (fst (pullRounds (length (watchers opts)) page st1)),
                        Inr (fst (pullRounds (length (watchers opts)) page st1)))))"
proof (cases "resolveRoot root")
  case (Inl e)
  then have "e = MissingDocumentElement \<and> root = Document None"
    by (auto simp: resolveRoot_def split: Root.splits option.splits)
  with Inl show ?thesis by (intro noRoot) (simp_all add: PageParserTree_constructor_def)
next
  case r: (Inr rootEl)
  show ?thesis
  proof (cases "compileWatchers 0 (watchers opts)")
    case (Inl e)
    with r show ?thesis
      by (intro noCompile [of e]) (simp_all add: PageParserTree_constructor_def Let_def)
  next
    case (Inr transformers)
    let ?tables = "addWatcherTags (watchers opts) (declaredTags opts)"
    let ?st0 = "\<lparr>tree = newTagTree rootEl (fst ?tables),
                 rootMatchedSet =
                   liveSetConstant
                     [\<lparr>oid = RootObject, el = getValue (newTagTree rootEl (fst ?tables)) rootNode,
                       parents = 0\<rparr>],
                 ecSources = map fst (fst ?tables),
                 logErrorFn = (case logError opts of
                                 None \<Rightarrow> DeferredRethrow
                               | Some h \<Rightarrow> UserLogError h),
                 options = opts,
                 tagOptions = snd ?tables,
                 watcherLiveSetTransformers = transformers,
                 wirings = [],
                 parentsStore = [[\<lparr>ptag = None, pnode = rootNode\<rparr>]],
                 elementsToNodes = (\<lambda>i e. None),
                 outputValues = (\<lambda>i. []),
                 logErrorCalls = []\<rparr>"
    show ?thesis
    proof (rule wired [of rootEl transformers ?st0
             "fst (wireLoop page ?st0 (zip (watchers opts) transformers))"])
      show "PageParserTree_constructor root opts page =
             (case snd (wireLoop page ?st0 (zip (watchers opts) transformers)) of
                Inl e \<Rightarrow> (Some (fst (wireLoop page ?st0 (zip (watchers opts) transformers))), Inl e)
              | Inr u \<Rightarrow>
                  (case snd (pullRounds (length (watchers opts)) page
                               (fst (wireLoop page ?st0 (zip (watchers opts) transformers)))) of
                     Inl e \<Rightarrow> (Some (fst (pullRounds (length (watchers opts)) page
                                 (fst (wireLoop page ?st0 (zip (watchers opts) transformers))))), Inl e)
                   | Inr u2 \<Rightarrow>
                       (Some (fst (pullRounds (length (watchers opts)) page
                                 (fst (wireLoop page ?st0 (zip (watchers opts) transformers))))),
                        Inr (fst (pullRounds (length (watchers opts)) page
                                 (fst (wireLoop page ?st0 (zip (watchers opts) transformers))))))))"
      proof -
        obtain st1 r1 where w: "wireLoop page ?st0 (zip (watchers opts) transformers) = (st1, r1)"
          by (cases "wireLoop page ?st0 (zip (watchers opts) transformers)")
        obtain st2 r2 where p: "pullRounds (length (watchers opts)) page st1 = (st2, r2)"
          by (cases "pullRounds (length (watchers opts)) page st1")
        from r Inr w p show ?thesis
          by (cases r1; cases r2) (simp_all add: PageParserTree_constructor_def Let_def)
      qed
    qed (use r Inr in \<open>simp_all add: rootPair_def unwritten_def getValue_def newTagTree_def rootNode_def\<close>)
  qed
qed

lemma initial_consistent:
  assumes "wirings st0 = []" and "parentsStore st0 = [[rootPair]]"
    and "outputValues st0 = (\<lambda>i. [])" and "elementsToNodes st0 = (\<lambda>i e. None)"
  shows "consistent st0"
  using assms by (simp add: consistent_def storeOk_def outputsOk_def wiringsOk_def nodesOk_def)

lemma sourceOk_root: "sourceOk (liveSetConstant [\<lparr>oid = x, el = e, parents = 0\<rparr>])"
  by (simp add: sourceOk_def liveSetConstant_def newSet_def addValue_def)

lemma constructor_state:
  assumes "fst (PageParserTree_constructor root opts page) = Some st"
  shows "consistent st"
    and "\<exists>rootEl. rootMatchedSet st =
           liveSetConstant [\<lparr>oid = RootObject, el = rootEl, parents = 0\<rparr>]"
    and "logErrorCalls st = []"
    and "logErrorFn st = (case logError opts of None \<Rightarrow> DeferredRethrow | Some h \<Rightarrow> UserLogError h)"
proof -
  have "consistent st \<and>
        (\<exists>rootEl. rootMatchedSet st =
           liveSetConstant [\<lparr>oid = RootObject, el = rootEl, parents = 0\<rparr>]) \<and>
        logErrorCalls st = [] \<and>
        logErrorFn st = (case logError opts of None \<Rightarrow> DeferredRethrow | Some h \<Rightarrow> UserLogError h)"
  proof (cases rule: constructor_cases [of root opts page])
    case noRoot
    with assms show ?thesis by simp
  next
    case (noCompile e)
    with assms show ?thesis by simp
  next
    case (wired rootEl transformers st0 st1)
    have c0: "consistent st0" by (rule initial_consistent [OF wired(3-6)])
    have s0: "sourceOk (rootMatchedSet st0)"
      using wired(8) sourceOk_root by (simp add: unwritten_def)
    have h: "\<forall>wt \<in> set (zip (watchers opts) transformers). handsOnParents (snd wt)"
      using compileWatchers_handsOnParents [OF wired(2)] by (auto dest: set_zip_rightD)
    from wireLoop_consistent [OF c0 s0 h, of page] wired(9)
    have c1: "consistent st1" and u1: "unwritten st1 = unwritten st0" by simp_all
    from pullRounds_consistent [OF c1, of "length (watchers opts)" page] u1
    have c2: "consistent (fst (pullRounds (length (watchers opts)) page st1))"
      and u2: "unwritten (fst (pullRounds (length (watchers opts)) page st1)) = unwritten st0"
      by simp_all
    from assms wired(10) have "st = st1 \<or> st = fst (pullRounds (length (watchers opts)) page st1)"
      by (auto split: sum.splits)
    with c1 c2 u1 u2 have "consistent st" "unwritten st = unwritten st0" by auto
    with wired(8) show ?thesis by (auto simp: unwritten_def)
  qed
  then show "consistent st"
    and "\<exists>rootEl. rootMatchedSet st =
           liveSetConstant [\<lparr>oid = RootObject, el = rootEl, parents = 0\<rparr>]"
    and "logErrorCalls st = []"
    and "logErrorFn st = (case logError opts of None \<Rightarrow> DeferredRethrow | Some h \<Rightarrow> UserLogError h)"
    by simp_all
qed

lemma constructor_returns_state:
  "snd (PageParserTree_constructor root opts page) = Inr st \<Longrightarrow>
   fst (PageParserTree_constructor root opts page) = Some st"
  by (cases rule: constructor_cases [of root opts page]) (auto split: sum.splits)

lemma reachable_consistent:
  "reachable root opts st \<Longrightarrow>
   consistent st \<and>
   (\<exists>rootEl. rootMatchedSet st = liveSetConstant [\<lparr>oid = RootObject, el = rootEl, parents = 0\<rparr>]) \<and>
   logErrorFn st = (case logError opts of None \<Rightarrow> DeferredRethrow | Some h \<Rightarrow> UserLogError h)"
proof (induction rule: reachable.induct)
  case (constructed root opts page st)
  from constructor_state(1,2,4) [OF constructor_returns_state [OF this]] show ?case by simp
next
  case (added root opts st i ec page)
  with deliverAdd_consistent [of st i ec] deliverAdd_kept(2) [where i = i and st = st and ec = ec] show ?case
    by (simp add: unwritten_def)
next
  case (removed root opts st i v)
  with deliverRemove_consistent [of st i v] deliverRemove_kept(2) [where i = i and st = st and v = v] show ?case
    by (simp add: unwritten_def)
qed

section \<open>Declared tags and unknown sources\<close>

lemma addWatcherTags_keys:
  "set (map fst (snd (addWatcherTags ws (tgs, topts)))) = set (map fst topts) \<union> tag ` set ws"
  by (induction ws arbitrary: tgs topts) auto







lemma tables_tagOptions:
  assumes "w \<in> set (watchers opts)"
  shows "map_of (snd (addWatcherTags (watchers opts) (declaredTags opts))) (tag w) \<noteq> None"
proof -
  have "tag w \<in> set (map fst (snd (addWatcherTags (watchers opts) (tags_of, tags opts))))"
    for tags_of
    using assms addWatcherTags_keys [of "watchers opts" tags_of "tags opts"] by auto
  then show ?thesis
    by (auto simp: declaredTags_def map_of_eq_None_iff)
qed

lemma sourceSetsOf_error:
  "sourceSetsOf rootSet keys srcs = Inl e \<Longrightarrow>
   \<exists>t. e = UnknownSource t \<and> t \<noteq> [] \<and> t \<notin> set keys \<and> Some t \<in> set srcs"
  by (induction srcs)
     (auto simp: resolveSource_def split: sum.splits option.splits if_splits)



lemma wireWatcher_error:
  assumes "wireWatcher topts rootSet keys wt = Inl e" and "map_of topts (tag (fst wt)) \<noteq> None"
  shows "\<exists>t. e = UnknownSource t \<and> t \<noteq> [] \<and> t \<notin> set keys \<and> Some t \<in> set (sources (fst wt))"
proof -
  from assms have "sourceSetsOf rootSet keys (sources (fst wt)) = Inl e"
    by (auto simp: wireWatcher_def split: option.splits sum.splits)
  from sourceSetsOf_error [OF this] show ?thesis .
qed






lemma wireLoop_error:
  "consistent st \<Longrightarrow> sourceOk (rootMatchedSet st) \<Longrightarrow>
   \<forall>wt \<in> set wts. handsOnParents (snd wt) \<and> map_of (tagOptions st) (tag (fst wt)) \<noteq> None \<Longrightarrow>
   snd (wireLoop page st wts) = Inl e \<Longrightarrow>
   (e = ReceivedElementTwice \<and> length (wirings st) < length (wirings (fst (wireLoop page st wts))))
   \<or> (\<exists>t wt. e = UnknownSource t \<and> t \<noteq> [] \<and> t \<notin> set (ecSources st) \<and> wt \<in> set wts \<and>
         Some t \<in> set (sources (fst wt)))"
proof (induction wts arbitrary: st)
  case Nil
  then show ?case by simp
next
  case (Cons wt wts)
  show ?case
  proof (cases "wireWatcher (tagOptions st) (rootMatchedSet st) (ecSources st) wt")
    case (Inl e')
    with Cons.prems(4) have "e' = e" by simp
    with Inl Cons.prems(3) wireWatcher_error [of "tagOptions st" "rootMatchedSet st" "ecSources st" wt e]
    obtain t where "e = UnknownSource t" "t \<noteq> []" "t \<notin> set (ecSources st)"
      "Some t \<in> set (sources (fst wt))" by auto
    then have "\<exists>t x. e = UnknownSource t \<and> t \<noteq> [] \<and> t \<notin> set (ecSources st) \<and>
                 x \<in> set (wt # wts) \<and> Some t \<in> set (sources (fst x))"
      by (intro exI [of _ t] exI [of _ wt]) simp
    then show ?thesis by blast
  next
    case w: (Inr wiring)
    let ?i = "length (wirings st)"
    let ?st1 = "st\<lparr>wirings := wirings st @ [wiring]\<rparr>"
    from wireWatcher_ok [OF w Cons.prems(2)] Cons.prems(3)
    have ok: "handsOnParents (wTransformer wiring)" "sourceOk (wSourceSet wiring)" by simp_all
    have c1: "consistent ?st1" by (rule wire_consistent [OF Cons.prems(1) ok])
    have i1: "?i < length (wirings ?st1)" by simp
    obtain st2 r where d: "deliverAll ?i ?st1 (pipelineValues ?st1 ?i page) = (st2, r)"
      by (cases "deliverAll ?i ?st1 (pipelineValues ?st1 ?i page)")
    from deliverAll_consistent [OF c1 i1, of "pipelineValues ?st1 ?i page"] d
    have c2: "consistent st2" by simp
    from deliverAll_kept [where i = ?i and st = ?st1 and ecs = "pipelineValues ?st1 ?i page"] d
    have w2: "wirings st2 = wirings st @ [wiring]" and u2: "unwritten st2 = unwritten st"
      by (simp_all add: unwritten_def)
    show ?thesis
    proof (cases r)
      case (Inl e')
      with w d Cons.prems(4) have e: "e' = e" by (simp add: Let_def)
      have "\<forall>ec \<in> set (pipelineValues ?st1 ?i page). parents ec < length (parentsStore ?st1)"
        using pipelineValues_refs [OF c1 i1] by blast
      from deliverAll_error [OF c1 i1 this, of e] d Inl e have "e = ReceivedElementTwice" by simp
      with w d Inl w2 show ?thesis by (simp add: Let_def)
    next
      case (Inr u)
      from u2 Cons.prems(2) have s2: "sourceOk (rootMatchedSet st2)" by (simp add: unwritten_def)
      from u2 Cons.prems(3)
      have a2: "\<forall>wt \<in> set wts. handsOnParents (snd wt) \<and> map_of (tagOptions st2) (tag (fst wt)) \<noteq> None"
        by (simp add: unwritten_def)
      from w d Inr Cons.prems(4) have "snd (wireLoop page st2 wts) = Inl e" by (simp add: Let_def)
      from Cons.IH [OF c2 s2 a2 this] u2 w2
      have "(e = ReceivedElementTwice \<and> length (wirings st) < length (wirings (fst (wireLoop page st2 wts))))
            \<or> (\<exists>t wt. e = UnknownSource t \<and> t \<noteq> [] \<and> t \<notin> set (ecSources st) \<and> wt \<in> set wts \<and>
                 Some t \<in> set (sources (fst wt)))"
        by (auto simp: unwritten_def)
      with w d Inr show ?thesis by (auto simp: Let_def)
    qed
  qed
qed

lemmas example_defs =
  PageParserTree_constructor_def exampleOptions_def unknownSourceOptions_def
  emptySourceOptions_def resolveRoot_def Let_def declaredTags_def
  makeLiveSetTransformer_def wireWatcher_def resolveSource_def newTagTree_def getValue_def
  rootNode_def reduceTransformers_def liveSetConstant_def liveSetFlatMap_def liveSetMerge_def
  liveSetTransduce_def makeElementChildLiveSet_def ecSet_def List.map_filter_def
  t_compose_def t_filter_def t_map_def newSet_def addValue_def examplePage_def emptyPage_def
  worldOf_def pipelineValues_def pendingOf_def pullChanges_def
  deliverAdd_def deliverRemove_def outputSetMapFn_def subscribeChange_def findParentNode_def
  qualifies_def parentsOf_def addTaggedValue_def removeTaggedNode_def detach_def getParent_def
  ownsNode_def ancestorsOf_def ctxA_def ctxA2_def outA_def ctxB_def outB_def





lemma pullEach_error:
  "consistent st \<Longrightarrow> \<forall>i \<in> set subs. i < length (wirings st) \<Longrightarrow>
   snd (pullEach page st subs) = Inl e \<Longrightarrow> e = ReceivedElementTwice"
proof (induction subs arbitrary: st)
  case Nil
  then show ?case by simp
next
  case (Cons i subs)
  obtain st1 r where d: "pullChanges page i st = (st1, r)" by (cases "pullChanges page i st")
  from Cons.prems have i: "i < length (wirings st)" by simp
  from deliverAll_consistent [OF Cons.prems(1) i, of "pendingOf st i page"] d
  have c1: "consistent st1" by (simp add: pullChanges_def)
  from deliverAll_kept [where i = i and st = st and ecs = "pendingOf st i page"] d
  have k1: "wirings st1 = wirings st" by (simp add: pullChanges_def)
  have refs: "\<forall>ec \<in> set (pendingOf st i page). parents ec < length (parentsStore st)"
    using pipelineValues_refs [OF Cons.prems(1) i] by (auto simp: pendingOf_def)
  show ?case
  proof (cases r)
    case (Inl e')
    with d Cons.prems(3) have "snd (deliverAll i st (pendingOf st i page)) = Inl e"
      by (simp add: pullChanges_def)
    from deliverAll_error [OF Cons.prems(1) i refs this] show ?thesis .
  next
    case (Inr u)
    from Cons.prems(2) k1 have "\<forall>i \<in> set subs. i < length (wirings st1)" by simp
    from Cons.IH [OF c1 this] d Inr Cons.prems(3) show ?thesis by simp
  qed
qed

lemma pullRounds_error:
  "consistent st \<Longrightarrow> snd (pullRounds k page st) = Inl e \<Longrightarrow> e = ReceivedElementTwice"
proof (induction k arbitrary: st)
  case 0
  then show ?case by simp
next
  case (Suc k)
  obtain st1 r where d: "pullEach page st [0..<length (wirings st)] = (st1, r)"
    by (cases "pullEach page st [0..<length (wirings st)]")
  from pullEach_consistent [OF Suc.prems(1), of "[0..<length (wirings st)]" page] d
  have c1: "consistent st1" by simp
  show ?case
  proof (cases r)
    case (Inl e')
    with d Suc.prems(2) have "snd (pullEach page st [0..<length (wirings st)]) = Inl e" by simp
    from pullEach_error [OF Suc.prems(1) _ this] show ?thesis by simp
  next
    case (Inr u)
    with Suc.IH [OF c1] d Suc.prems(2) show ?thesis by simp
  qed
qed

lemma constructor_error:
  assumes "snd (PageParserTree_constructor root opts page) = Inl e"
  shows "e = MissingDocumentElement \<or> compileError e \<or> (\<exists>t. e = UnknownSource t) \<or>
         e = ReceivedElementTwice"
proof (cases rule: constructor_cases [of root opts page])
  case noRoot
  with assms show ?thesis by simp
next
  case (noCompile e')
  with assms compileWatchers_error [OF noCompile(1)] show ?thesis by simp
next
  case (wired rootEl transformers st0 st1)
  let ?wts = "zip (watchers opts) transformers"
  have c0: "consistent st0" by (rule initial_consistent [OF wired(3-6)])
  have s0: "sourceOk (rootMatchedSet st0)"
    using wired(8) sourceOk_root by (simp add: unwritten_def)
  have a0: "\<forall>wt \<in> set ?wts. handsOnParents (snd wt) \<and>
              map_of (tagOptions st0) (tag (fst wt)) \<noteq> None"
    using compileWatchers_handsOnParents [OF wired(2)] tables_tagOptions [of _ opts] wired(8)
    by (auto simp: unwritten_def dest: set_zip_rightD set_zip_leftD)
  have h: "\<forall>wt \<in> set ?wts. handsOnParents (snd wt)" using a0 by blast
  show ?thesis
  proof (cases "snd (wireLoop page st0 ?wts)")
    case (Inl e')
    with assms wired(10) have "e' = e" by simp
    with wireLoop_error [OF c0 s0 a0, of page e] Inl show ?thesis by auto
  next
    case (Inr u)
    from wireLoop_consistent [OF c0 s0 h, of page] wired(9) have c1: "consistent st1" by simp
    from Inr assms wired(10) have "snd (pullRounds (length (watchers opts)) page st1) = Inl e"
      by (auto split: sum.splits)
    from pullRounds_error [OF c1 this] show ?thesis by simp
  qed
qed

section \<open>The root entry makes the parent search succeed\<close>

text \<open>
  Claim C10. The root live set is seeded with the one context whose \<open>parents\<close> array
  (the array at address \<open>0\<close>) holds the root pair (absent tag, the tree's root node)
  alone; the map function hands on a copy of the array it was given with one entry
  appended. In every state that the orchestrator reaches, every context that the
  pipeline of a watcher yields has a parents list whose first entry is this root pair,
  so \<open>findParentNode\<close> finds a parent and the throw for "no qualifying ancestor" does
  not happen at the placement; nor is it the throw of a construction, whose deliveries
  place the elements already on the page.
\<close>

theorem root_pair_heads_every_parents_list:
  assumes "reachable root opts st" and "i < length (wirings st)"
    and "ec \<in> set (pipelineValues st i page)"
  shows "parents ec < length (parentsStore st)
       \<and> parentsOf st ec \<noteq> []
       \<and> hd (parentsOf st ec) = \<lparr>ptag = None, pnode = rootNode\<rparr>
       \<and> (\<exists>parentNode. findParentNode (wOwnedBy (wirings st ! i)) (parentsOf st ec) = Inr parentNode)
       \<and> snd (outputSetMapFn i st ec) \<noteq> Inl NoParentNode
       \<and> (\<forall>page0 st0. snd (PageParserTree_constructor root opts page0) = Inr st0 \<longrightarrow>
             parentsStore st0 ! 0 = [\<lparr>ptag = None, pnode = rootNode\<rparr>] \<and>
             (\<exists>rootEl. rootMatchedSet st0 =
                liveSetConstant [\<lparr>oid = RootObject, el = rootEl, parents = 0\<rparr>]))
       \<and> parentsStore st ! 0 = [\<lparr>ptag = None, pnode = rootNode\<rparr>]
       \<and> (\<exists>rootEl. rootMatchedSet st =
             liveSetConstant [\<lparr>oid = RootObject, el = rootEl, parents = 0\<rparr>])
       \<and> (\<forall>st' v. outputSetMapFn i st ec = (st', Inr v) \<longrightarrow>
             parentsOf st' v =
               parentsOf st ec @
                 [\<lparr>ptag = Some (wTag (wirings st ! i)), pnode = length (treeNodes (tree st))\<rparr>])
       \<and> snd (PageParserTree_constructor root opts page) \<noteq> Inl NoParentNode"
proof -
  from reachable_consistent [OF assms(1)] have c: "consistent st"
    and rs: "\<exists>rootEl. rootMatchedSet st =
               liveSetConstant [\<lparr>oid = RootObject, el = rootEl, parents = 0\<rparr>]"
    by simp_all
  have r: "parents ec < length (parentsStore st)" by (rule pipelineValues_refs [OF c assms(2,3)])
  then have po: "parentsOf st ec = parentsStore st ! parents ec" by (simp add: parentsOf_def)
  with r c have ne: "parentsOf st ec \<noteq> []" and hd: "hd (parentsOf st ec) = rootPair"
    by (auto simp: consistent_def storeOk_def)
  from c have zero: "parentsStore st ! 0 = [rootPair]" by (simp add: consistent_def storeOk_def)
  from findParentNode_root [OF ne hd] obtain parentNode where
    f: "findParentNode (wOwnedBy (wirings st ! i)) (parentsOf st ec) = Inr parentNode" by blast
  then have no: "snd (outputSetMapFn i st ec) \<noteq> Inl NoParentNode"
    by (cases rule: outputSetMapFn_cases [of st i ec]) auto
  have ctor: "parentsStore st0 ! 0 = [rootPair] \<and>
        (\<exists>rootEl. rootMatchedSet st0 =
           liveSetConstant [\<lparr>oid = RootObject, el = rootEl, parents = 0\<rparr>])"
    if "snd (PageParserTree_constructor root opts page0) = Inr st0" for page0 st0
    using reachable_consistent [OF reachable.constructed [OF that]]
    by (simp add: consistent_def storeOk_def)
  have copy: "parentsOf st' v =
               parentsOf st ec @
                 [\<lparr>ptag = Some (wTag (wirings st ! i)), pnode = length (treeNodes (tree st))\<rparr>]"
    if "outputSetMapFn i st ec = (st', Inr v)" for st' v
    using that by (cases rule: outputSetMapFn_cases [of st i ec]) (auto simp: parentsOf_def)
  have thrown: "snd (PageParserTree_constructor root opts page) \<noteq> Inl NoParentNode"
    using constructor_error [of root opts page NoParentNode] by (auto simp: compileError_def)
  from r ne hd f no ctor zero rs copy thrown show ?thesis
    unfolding rootPair_def by blast
qed

section \<open>The example states\<close>

lemma example0_constructed:
  "snd (PageParserTree_constructor (Element 0) exampleOptions emptyPage) = Inr example0"
  by (simp add: example0_def example_defs)

lemma example0_state:
  "map wTag (wirings example0) = [''a'', ''b'', ''a'']"
  "map wOwnedBy (wirings example0) = [[], [''a''], []]"
  "parentsStore example0 = [[\<lparr>ptag = None, pnode = 0\<rparr>]]"
  "elementsToNodes example0 = (\<lambda>i e. None)"
  "outputValues example0 = (\<lambda>i. [])"
  "requests (tree example0) = []"
  "logErrorFn example0 = UserLogError 0"
  "pipelineValues example0 0 examplePage =
     [ctxA, \<lparr>oid = Built [0, 0] RootObject 2, el = 2, parents = 0\<rparr>]"
  by (simp_all add: example0_def example_defs)

lemma example1_state:
  "map wTag (wirings example1) = [''a'', ''b'', ''a'']"
  "map wOwnedBy (wirings example1) = [[], [''a''], []]"
  "parentsStore example1 =
     [[\<lparr>ptag = None, pnode = 0\<rparr>],
      [\<lparr>ptag = None, pnode = 0\<rparr>, \<lparr>ptag = Some ''a'', pnode = 1\<rparr>]]"
  "elementsToNodes example1 0 1 = Some 1"
  "elementsToNodes example1 2 1 = None"
  "outputValues example1 0 = [outA]"
  "treeNodes (tree example1) =
     [\<lparr>tnValue = 0, tnTag = None, tnParent = None, tnAncestors = [], tnOwned = True\<rparr>,
      \<lparr>tnValue = 1, tnTag = Some ''a'', tnParent = Some 0, tnAncestors = [0], tnOwned = True\<rparr>]"
  "requests (tree example1) = [AddTaggedValue 0 ''a'' 1]"
  "logErrorCalls example1 = []"
  "pipelineValues example1 0 examplePage =
     [ctxA, \<lparr>oid = Built [0, 0] RootObject 2, el = 2, parents = 0\<rparr>]"
  "pipelineValues example1 1 examplePage = [ctxB]"
  "pipelineValues example1 2 examplePage =
     [ctxA2, \<lparr>oid = Built [2, 0] RootObject 2, el = 2, parents = 0\<rparr>]"
  by (simp_all add: example1_def example0_def example_defs)

lemma example0_reachable: "reachable (Element 0) exampleOptions example0"
  by (rule reachable.constructed [OF example0_constructed])

lemma example1_reachable: "reachable (Element 0) exampleOptions example1"
  unfolding example1_def
proof (rule reachable.added [OF example0_reachable, where page = examplePage])
  have "length (map wTag (wirings example0)) = 3" by (simp only: example0_state(1)) simp
  then show "0 < length (wirings example0)" by simp
  show "ctxA \<in> set (pipelineValues example0 0 examplePage)"
    by (simp add: example0_state(8))
qed



lemma example_contexts:
  "el ctxA = 1" "el ctxA2 = 1" "el outA = 1" "el outB = 3" "el ctxB = 3"
  "parents ctxB = 1"
  by (simp_all add: ctxA_def ctxA2_def outA_def outB_def ctxB_def)

section \<open>An element reported twice\<close>

text \<open>
  Claim C3, as amended. In every state that the orchestrator reaches: if the pipeline of a
  watcher yields a context whose element this watcher's own \<open>elementsToNodes\<close> map
  already holds, the map function throws \<open>received element twice\<close>; the throw is the
  result of the delivery, and the error sink is not called.
\<close>

theorem received_twice_is_thrown:
  assumes "reachable root opts st" and "i < length (wirings st)"
    and "ec \<in> set (pipelineValues st i page)" and "elementsToNodes st i (el ec) = Some n0"
  shows "snd (outputSetMapFn i st ec) = Inl ReceivedElementTwice
       \<and> snd (deliverAdd i st ec) = Inl ReceivedElementTwice
       \<and> logErrorCalls (fst (deliverAdd i st ec)) = logErrorCalls st
       \<and> logErrorFn (fst (deliverAdd i st ec)) = logErrorFn st"
proof -
  have c: "consistent st" using reachable_consistent [OF assms(1)] by simp
  have r: "parents ec < length (parentsStore st)" by (rule pipelineValues_refs [OF c assms(2,3)])
  with c have "parentsOf st ec \<noteq> []" "hd (parentsOf st ec) = rootPair"
    by (auto simp: consistent_def storeOk_def parentsOf_def)
  from findParentNode_root [OF this] obtain parentNode where
    f: "findParentNode (wOwnedBy (wirings st ! i)) (parentsOf st ec) = Inr parentNode" by blast
  show ?thesis
  proof (cases rule: outputSetMapFn_cases [of st i ec])
    case noParent
    with f show ?thesis by simp
  next
    case (twice p n)
    then show ?thesis by (simp add: deliverAdd_def)
  next
    case (placed p)
    with assms(4) show ?thesis by simp
  qed
qed

theorem received_twice_is_thrown_witness:
  "reachable (Element 0) exampleOptions example1
   \<and> 0 < length (wirings example1)
   \<and> ctxA \<in> set (pipelineValues example1 0 examplePage)
   \<and> elementsToNodes example1 0 (el ctxA) = Some 1
   \<and> snd (deliverAdd 0 example1 ctxA) = Inl ReceivedElementTwice
   \<and> logErrorCalls (fst (deliverAdd 0 example1 ctxA)) = []"
proof -
  have len: "0 < length (wirings example1)"
    using arg_cong [OF example1_state(1), of length] by simp
  have mem: "ctxA \<in> set (pipelineValues example1 0 examplePage)"
    using example1_state(10) by simp
  have e2n: "elementsToNodes example1 0 (el ctxA) = Some 1"
    using example1_state(4) example_contexts(1) by simp
  from received_twice_is_thrown [OF example1_reachable len mem e2n]
  show ?thesis using example1_reachable len mem e2n example1_state(9) by simp
qed

theorem same_tag_other_watcher_counterexample:
  "reachable (Element 0) exampleOptions example1
   \<and> elementsToNodes example1 0 1 = Some 1
   \<and> tnValue (treeNodes (tree example1) ! 1) = 1
   \<and> tnTag (treeNodes (tree example1) ! 1) = Some ''a''
   \<and> map wTag (wirings example1) = [''a'', ''b'', ''a'']
   \<and> ctxA2 \<in> set (pipelineValues example1 2 examplePage)
   \<and> el ctxA2 = 1
   \<and> snd (outputSetMapFn 2 example1 ctxA2) =
       Inr \<lparr>oid = Output 2 (Built [2, 0] RootObject 1), el = 1, parents = 2\<rparr>
   \<and> snd (deliverAdd 2 example1 ctxA2) \<noteq> Inl ReceivedElementTwice"
proof -
  have "snd (outputSetMapFn 2 example1 ctxA2) =
          Inr \<lparr>oid = Output 2 (Built [2, 0] RootObject 1), el = 1, parents = 2\<rparr>"
    by (simp add: example1_def example0_def example_defs)
  moreover have "snd (deliverAdd 2 example1 ctxA2) \<noteq> Inl ReceivedElementTwice"
    by (simp add: example1_def example0_def example_defs)
  ultimately show ?thesis
    using example1_reachable example1_state(1,4,7,12) example_contexts(2) by simp
qed

section \<open>The tree when an element is reported twice\<close>

text \<open>
  Claim C9. When the map function throws \<open>received element twice\<close>, the tree has
  already changed: \<open>addTaggedValue\<close> was requested before the check, so the tree holds
  one more node, a second node with this element and this tag beside the node that the
  element-to-node map holds. The map still holds the first node, and no parents array
  was made.
\<close>

theorem received_twice_after_attach:
  assumes "reachable root opts st"
    and "snd (outputSetMapFn i st ec) = Inl ReceivedElementTwice"
  shows "\<exists>parentNode n0.
           findParentNode (wOwnedBy (wirings st ! i)) (parentsOf st ec) = Inr parentNode
         \<and> tree (fst (outputSetMapFn i st ec)) =
             fst (addTaggedValue (tree st) parentNode (wTag (wirings st ! i)) (el ec))
         \<and> requests (tree (fst (outputSetMapFn i st ec))) =
             requests (tree st) @ [AddTaggedValue parentNode (wTag (wirings st ! i)) (el ec)]
         \<and> treeNodes (tree (fst (outputSetMapFn i st ec))) =
             treeNodes (tree st) @
               [\<lparr>tnValue = el ec, tnTag = Some (wTag (wirings st ! i)),
                 tnParent = Some parentNode,
                 tnAncestors = parentNode # ancestorsOf (tree st) parentNode, tnOwned = True\<rparr>]
         \<and> tree (fst (outputSetMapFn i st ec)) \<noteq> tree st
         \<and> elementsToNodes st i (el ec) = Some n0
         \<and> elementsToNodes (fst (outputSetMapFn i st ec)) = elementsToNodes st
         \<and> n0 < length (treeNodes (tree st))
         \<and> tnValue (treeNodes (tree (fst (outputSetMapFn i st ec))) ! n0) = el ec
         \<and> tnTag (treeNodes (tree (fst (outputSetMapFn i st ec))) ! n0) = Some (wTag (wirings st ! i))
         \<and> parentsStore (fst (outputSetMapFn i st ec)) = parentsStore st"
proof (cases rule: outputSetMapFn_cases [of st i ec])
  case noParent
  with assms(2) show ?thesis by simp
next
  case (placed p)
  with assms(2) show ?thesis by simp
next
  case (twice parentNode n0)
  have "nodesOk st" using reachable_consistent [OF assms(1)] by (simp add: consistent_def)
  from nodesOkD [OF this twice(2)]
  have n0: "n0 < length (treeNodes (tree st))" "tnValue (treeNodes (tree st) ! n0) = el ec"
    "tnTag (treeNodes (tree st) ! n0) = Some (wTag (wirings st ! i))"
    by simp_all
  have "treeNodes (fst (addTaggedValue (tree st) parentNode (wTag (wirings st ! i)) (el ec)))
          \<noteq> treeNodes (tree st)"
    by (simp add: addTaggedValue_nodes)
  then have "fst (addTaggedValue (tree st) parentNode (wTag (wirings st ! i)) (el ec)) \<noteq> tree st"
    by auto
  with twice n0 show ?thesis
    by (intro exI [of _ parentNode] exI [of _ n0])
       (simp add: addTaggedValue_nodes nth_append, simp add: addTaggedValue_def)
qed

theorem received_twice_after_attach_witness:
  "reachable (Element 0) exampleOptions example1
   \<and> snd (outputSetMapFn 0 example1 ctxA) = Inl ReceivedElementTwice
   \<and> treeNodes (tree (fst (outputSetMapFn 0 example1 ctxA))) =
      [\<lparr>tnValue = 0, tnTag = None, tnParent = None, tnAncestors = [], tnOwned = True\<rparr>,
       \<lparr>tnValue = 1, tnTag = Some ''a'', tnParent = Some 0, tnAncestors = [0], tnOwned = True\<rparr>,
       \<lparr>tnValue = 1, tnTag = Some ''a'', tnParent = Some 0, tnAncestors = [0], tnOwned = True\<rparr>]
   \<and> elementsToNodes (fst (outputSetMapFn 0 example1 ctxA)) 0 1 = Some 1"
proof -
  have thrown: "snd (outputSetMapFn 0 example1 ctxA) = Inl ReceivedElementTwice"
    by (simp add: example1_def example0_def example_defs)
  have nodes: "treeNodes (tree (fst (outputSetMapFn 0 example1 ctxA))) =
      [\<lparr>tnValue = 0, tnTag = None, tnParent = None, tnAncestors = [], tnOwned = True\<rparr>,
       \<lparr>tnValue = 1, tnTag = Some ''a'', tnParent = Some 0, tnAncestors = [0], tnOwned = True\<rparr>,
       \<lparr>tnValue = 1, tnTag = Some ''a'', tnParent = Some 0, tnAncestors = [0], tnOwned = True\<rparr>]"
    by (simp add: example1_def example0_def example_defs)
  from received_twice_after_attach [OF example1_reachable thrown]
  show ?thesis using example1_reachable thrown nodes example1_state(4) by auto
qed

theorem root_pair_heads_every_parents_list_witness:
  "reachable (Element 0) exampleOptions example1
   \<and> 1 < length (wirings example1)
   \<and> ctxB \<in> set (pipelineValues example1 1 examplePage)
   \<and> parentsOf example1 ctxB =
       [\<lparr>ptag = None, pnode = 0\<rparr>, \<lparr>ptag = Some ''a'', pnode = 1\<rparr>]
   \<and> snd (outputSetMapFn 1 example1 ctxB) = Inr outB
   \<and> snd (PageParserTree_constructor (Element 0) exampleOptions emptyPage) = Inr example0
   \<and> parentsStore example0 ! 0 = [\<lparr>ptag = None, pnode = 0\<rparr>]"
proof -
  have len: "1 < length (wirings example1)"
    using arg_cong [OF example1_state(1), of length] by simp
  have mem: "ctxB \<in> set (pipelineValues example1 1 examplePage)"
    using example1_state(11) by simp
  have po: "parentsOf example1 ctxB =
       [\<lparr>ptag = None, pnode = 0\<rparr>, \<lparr>ptag = Some ''a'', pnode = 1\<rparr>]"
    using example1_state(3) example_contexts(6) by (simp add: parentsOf_def)
  have out: "snd (outputSetMapFn 1 example1 ctxB) = Inr outB"
    by (simp add: example1_def example0_def example_defs)
  from root_pair_heads_every_parents_list [OF example1_reachable len mem]
  show ?thesis
    using example1_reachable len mem po out example0_constructed example0_state(3) by simp
qed

section \<open>Removal notifications\<close>




end
